theory Spec2Isabelle
  imports Complex_Main "HOL-Library.Word"
begin

text \<open>
  A shallow embedding of the selection engine of zpaint (class \<open>SelectionEngine\<close>):
  the mask algebra (\<open>invertSelection\<close>, \<open>combineSelections\<close>, \<open>selectionFromAlpha\<close>,
  \<open>applySelectionAsAlpha\<close>), the morphological operations (\<open>dilate\<close>, \<open>erode\<close>,
  \<open>medianFilter\<close> and the wrappers \<open>growSelection\<close>, \<open>shrinkSelection\<close>,
  \<open>smoothSelection\<close>, \<open>featherSelection\<close>), \<open>selectColorRange\<close>, and the two flood
  fills \<open>quickSelect\<close> and \<open>selectSubject\<close>.

  Bytes of a \<open>Uint8ClampedArray\<close> are 8-bit words, and a store into the array clamps.
  Loops over a buffer are folds over the indices in the order of the source, with the
  buffer updated in place by \<open>list_update\<close> (which, like a typed array, ignores a write
  beyond the end).  The two work-list loops are recursive functions whose termination is
  proved.  The edge map, the saliency map and the Gaussian convolution, which the code
  computes in floating point, are parameters; the division by zero of
  \<open>selectColorRange\<close> is modelled with the special values of IEEE 754.
\<close>

section \<open>Data model\<close>

text \<open>
  An \<open>ImageData\<close> is a width, a height and a \<open>Uint8ClampedArray\<close> of
  \<open>4 * width * height\<close> bytes (R, G, B, A per pixel, row-major).  The browser
  enforces that length, so it is the invariant \<open>wf_image\<close> of the type.
\<close>

type_synonym byte = "8 word"

record ImageData =
  width :: nat
  height :: nat
  data :: "byte list"

record Rect =
  rect_x :: nat
  rect_y :: nat
  rect_width :: nat
  rect_height :: nat

record Selection =
  mask :: ImageData
  bounds :: Rect
  active :: bool

datatype SelectionMode = New | Add | Subtract | Intersect

datatype error = IndexSizeError | InvalidStateError

definition wf_image :: "ImageData \<Rightarrow> bool" where
  "wf_image img \<longleftrightarrow> length (data img) = 4 * width img * height img"

text \<open>The engine object: only its \<open>width\<close> and \<open>height\<close> fields are read by the operations.\<close>

record SelectionEngine =
  engine_width :: nat
  engine_height :: nat

text \<open>
  A store into a \<open>Uint8ClampedArray\<close> of an integral number clamps it to \<open>0..255\<close>.
\<close>

definition clamp8 :: "int \<Rightarrow> byte" where
  "clamp8 v = word_of_int (max 0 (min 255 v))"

text \<open>
  \<open>new ImageData(array, sw, sh)\<close>: the constructor throws unless the array holds
  exactly \<open>4 * sw * sh\<close> bytes (and at least one pixel).
\<close>

definition new_ImageData_from :: "byte list \<Rightarrow> nat \<Rightarrow> nat \<Rightarrow> error + ImageData" where
  "new_ImageData_from d sw sh =
     (if length d = 0 \<or> length d mod 4 \<noteq> 0 then Inl InvalidStateError
      else if sw = 0 \<or> (length d div 4) mod sw \<noteq> 0 then Inl IndexSizeError
      else if (length d div 4) div sw \<noteq> sh then Inl IndexSizeError
      else Inr \<lparr>width = sw, height = sh, data = d\<rparr>)"

text \<open>The loop header \<open>for (let i = 0; i < n; i += 4)\<close>.\<close>

definition stride4 :: "nat \<Rightarrow> nat list" where
  "stride4 n = map (\<lambda>k. 4 * k) [0..<(n + 3) div 4]"

section \<open>Selection algebra\<close>

subsection \<open>invertSelection\<close>

definition invert_body :: "nat \<Rightarrow> byte list \<Rightarrow> byte list" where
  "invert_body i d0 =
     (let d1 = d0[i := clamp8 (255 - uint (d0 ! i))];
          d2 = d1[i + 1 := clamp8 (255 - uint (d1 ! (i + 1)))];
          d3 = d2[i + 2 := clamp8 (255 - uint (d2 ! (i + 2)))]
      in d3[i + 3 := 255])"

definition invertSelection :: "SelectionEngine \<Rightarrow> Selection \<Rightarrow> error + Selection" where
  "invertSelection eng selection =
     (case new_ImageData_from (data (mask selection)) (engine_width eng) (engine_height eng) of
        Inl e \<Rightarrow> Inl e
      | Inr m \<Rightarrow>
          Inr \<lparr>mask = m\<lparr>data := fold invert_body (stride4 (length (data m))) (data m)\<rparr>,
               bounds = \<lparr>rect_x = 0, rect_y = 0,
                         rect_width = engine_width eng, rect_height = engine_height eng\<rparr>,
               active = True\<rparr>)"

subsection \<open>combineSelections\<close>


text \<open>
  A read \<open>array[i]\<close> of a typed array: \<open>undefined\<close> (here \<open>None\<close>) beyond its length.
\<close>

definition rd :: "byte list \<Rightarrow> nat \<Rightarrow> int option" where
  "rd d i = (if i < length d then Some (uint (d ! i)) else None)"



section \<open>Bounds\<close>

text \<open>The pixel coordinates \<open>(x, y)\<close> in the order of the loops \<open>for y ... for x ...\<close>.\<close>

definition coords :: "nat \<Rightarrow> nat \<Rightarrow> (nat \<times> nat) list" where
  "coords w h = concat (map (\<lambda>y. map (\<lambda>x. (x, y)) [0..<w]) [0..<h])"

definition bounds_step :: "ImageData \<Rightarrow> nat \<times> nat \<Rightarrow> nat \<times> nat \<times> nat \<times> nat \<Rightarrow> nat \<times> nat \<times> nat \<times> nat" where
  "bounds_step m = (\<lambda>(x, y) (minX, minY, maxX, maxY).
     if 0 < uint (data m ! ((y * width m + x) * 4))
     then (min minX x, min minY y, max maxX x, max maxY y)
     else (minX, minY, maxX, maxY))"

definition computeBounds :: "ImageData \<Rightarrow> Rect" where
  "computeBounds m =
     (case fold (bounds_step m) (coords (width m) (height m)) (width m, height m, 0, 0) of
        (minX, minY, maxX, maxY) \<Rightarrow>
          if minX > maxX \<or> minY > maxY
          then \<lparr>rect_x = 0, rect_y = 0, rect_width = 0, rect_height = 0\<rparr>
          else \<lparr>rect_x = minX, rect_y = minY,
                rect_width = maxX - minX + 1, rect_height = maxY - minY + 1\<rparr>)"


subsection \<open>selectionFromAlpha\<close>

text \<open>
  The ImageData created inside an operation from the size of an ImageData it was given:
  that size is never zero, so the constructor does not throw.
\<close>

definition blank :: "nat \<Rightarrow> nat \<Rightarrow> ImageData" where
  "blank w h = \<lparr>width = w, height = h, data = replicate (4 * w * h) 0\<rparr>"



section \<open>Morphological operations\<close>

text \<open>
  Numbers that stay finite (radii, coordinates) are modelled as reals with exact
  arithmetic.  The offsets \<open>(dx, dy)\<close> in the order of the loops
  \<open>for dy = -r .. r, for dx = -r .. r\<close>; the list is empty when \<open>r < 0\<close>.
\<close>

definition offsets :: "int \<Rightarrow> (int \<times> int) list" where
  "offsets r = concat (map (\<lambda>dy. map (\<lambda>dx. (dx, dy)) [- r..r]) [- r..r])"

definition morph_step ::
  "(int \<Rightarrow> int \<Rightarrow> int) \<Rightarrow> ImageData \<Rightarrow> real \<Rightarrow> nat \<Rightarrow> nat \<Rightarrow> int \<times> int \<Rightarrow> int \<Rightarrow> int" where
  "morph_step f m radius x y = (\<lambda>(dx, dy) acc.
     if real_of_int (dx * dx + dy * dy) > radius * radius then acc
     else
       let nx = int x + dx; ny = int y + dy in
       if nx < 0 \<or> nx \<ge> int (width m) \<or> ny < 0 \<or> ny \<ge> int (height m) then acc
       else f acc (uint (data m ! (nat (ny * int (width m) + nx) * 4))))"

definition put_gray :: "nat \<Rightarrow> int \<Rightarrow> byte list \<Rightarrow> byte list" where
  "put_gray idx v d = d[idx := clamp8 v, idx + 1 := clamp8 v, idx + 2 := clamp8 v, idx + 3 := 255]"

definition dilate :: "ImageData \<Rightarrow> real \<Rightarrow> ImageData" where
  "dilate m radius =
     (let r = \<lceil>radius\<rceil>; result = blank (width m) (height m)
      in result\<lparr>data := fold (\<lambda>(x, y) d.
            let maxVal = fold (morph_step max m radius x y) (offsets r) 0
            in put_gray ((y * width m + x) * 4) maxVal d)
          (coords (width m) (height m)) (data result)\<rparr>)"

definition erode :: "ImageData \<Rightarrow> real \<Rightarrow> ImageData" where
  "erode m radius =
     (let r = \<lceil>radius\<rceil>; result = blank (width m) (height m)
      in result\<lparr>data := fold (\<lambda>(x, y) d.
            let minVal = fold (morph_step min m radius x y) (offsets r) 255
            in put_gray ((y * width m + x) * 4) minVal d)
          (coords (width m) (height m)) (data result)\<rparr>)"

text \<open>\<open>morphClose\<close> overwrites the mask's buffer with the closing.\<close>

definition morphClose :: "ImageData \<Rightarrow> real \<Rightarrow> ImageData" where
  "morphClose m radius = m\<lparr>data := data (erode (dilate m radius) radius)\<rparr>"

definition growSelection :: "Selection \<Rightarrow> real \<Rightarrow> Selection" where
  "growSelection selection npixels =
     (let m = dilate (mask selection) npixels
      in \<lparr>mask = m, bounds = computeBounds m, active = True\<rparr>)"

definition shrinkSelection :: "Selection \<Rightarrow> real \<Rightarrow> Selection" where
  "shrinkSelection selection npixels =
     (let m = erode (mask selection) npixels
      in \<lparr>mask = m, bounds = computeBounds m, active = True\<rparr>)"




text \<open>
  \<open>gaussianBlur\<close> returns its argument when \<open>radius < 0.5\<close>.  Otherwise it writes, for
  each pixel, the rounded result \<open>v\<close> of the two floating-point convolution passes into
  R, G and B and 255 into alpha.  The floating-point value is not modelled: \<open>conv\<close>
  stands for the function from the mask, the radius and the pixel to \<open>Math.round(val)\<close>.
\<close>

definition gaussianBlur ::
  "(ImageData \<Rightarrow> real \<Rightarrow> nat \<Rightarrow> nat \<Rightarrow> int) \<Rightarrow> ImageData \<Rightarrow> real \<Rightarrow> ImageData" where
  "gaussianBlur conv m radius =
     (if radius < 1 / 2 then m
      else
        let result = blank (width m) (height m)
        in result\<lparr>data := fold (\<lambda>(x, y) d.
              let v = conv m radius x y
              in put_gray ((y * width m + x) * 4) v d)
            (coords (width m) (height m)) (data result)\<rparr>)"

definition featherSelection ::
  "(ImageData \<Rightarrow> real \<Rightarrow> nat \<Rightarrow> nat \<Rightarrow> int) \<Rightarrow> Selection \<Rightarrow> real \<Rightarrow> Selection" where
  "featherSelection conv selection radius =
     (let m = gaussianBlur conv (mask selection) radius
      in \<lparr>mask = m, bounds = computeBounds m, active = True\<rparr>)"

section \<open>Colour range selection\<close>

text \<open>
  JavaScript numbers in \<open>selectColorRange\<close>: the division by \<open>maxDist\<close> can produce
  \<open>NaN\<close> and infinities, so the values of this function are finite reals (exact
  arithmetic in place of the rounding of doubles) or one of the three special values of
  IEEE 754.  The zero of \<open>maxDist = 0 * 2.55\<close> is the positive zero.
\<close>

datatype number = Fin real | PosInf | NegInf | NaN

record RGBA =
  rgba_r :: real
  rgba_g :: real
  rgba_b :: real
  rgba_a :: real

text \<open>The fields \<open>range\<close>, \<open>localized\<close> and \<open>localizedRadius\<close> of the options are never read.\<close>

record ColorRangeOptions =
  targetColor :: RGBA
  fuzziness :: real

text \<open>\<open>a / b\<close> for finite \<open>a\<close> and \<open>b\<close>.\<close>

definition js_div :: "real \<Rightarrow> real \<Rightarrow> number" where
  "js_div a b =
     (if b \<noteq> 0 then Fin (a / b)
      else if a = 0 then NaN else if a > 0 then PosInf else NegInf)"

text \<open>\<open>1 - q\<close>.\<close>

fun one_minus :: "number \<Rightarrow> number" where
  "one_minus (Fin q) = Fin (1 - q)"
| "one_minus PosInf = NegInf"
| "one_minus NegInf = PosInf"
| "one_minus NaN = NaN"

text \<open>\<open>Math.max(0, s)\<close>: \<open>NaN\<close> if an argument is \<open>NaN\<close>.\<close>

fun max0 :: "number \<Rightarrow> number" where
  "max0 (Fin q) = Fin (max 0 q)"
| "max0 PosInf = PosInf"
| "max0 NegInf = Fin 0"
| "max0 NaN = NaN"

text \<open>\<open>Math.round(s * 255)\<close>: \<open>Math.round\<close> rounds halves up.\<close>

fun round_times_255 :: "number \<Rightarrow> number" where
  "round_times_255 (Fin q) = Fin (of_int \<lfloor>q * 255 + 1 / 2\<rfloor>)"
| "round_times_255 PosInf = PosInf"
| "round_times_255 NegInf = NegInf"
| "round_times_255 NaN = NaN"

text \<open>
  The conversion of a store into a \<open>Uint8ClampedArray\<close>: \<open>NaN\<close> becomes 0, the value is
  clamped to \<open>0..255\<close> and rounded to the nearest integer, halves to the even one.
\<close>

fun toUint8Clamp :: "number \<Rightarrow> byte" where
  "toUint8Clamp NaN = 0"
| "toUint8Clamp NegInf = 0"
| "toUint8Clamp PosInf = 255"
| "toUint8Clamp (Fin q) =
     (if q \<le> 0 then 0 else if q \<ge> 255 then 255
      else
        let f = \<lfloor>q\<rfloor> in
        if of_int f + 1 / 2 < q then word_of_int (f + 1)
        else if q < of_int f + 1 / 2 then word_of_int f
        else if even f then word_of_int f else word_of_int (f + 1))"

definition colorRange_value :: "ColorRangeOptions \<Rightarrow> byte \<Rightarrow> byte \<Rightarrow> byte \<Rightarrow> number" where
  "colorRange_value options r g b =
     (let dr = real_of_int (uint r) - rgba_r (targetColor options);
          dg = real_of_int (uint g) - rgba_g (targetColor options);
          db = real_of_int (uint b) - rgba_b (targetColor options);
          dist = sqrt (dr * dr + dg * dg + db * db);
          maxDist = fuzziness options * (255 / 100);
          strength = max0 (one_minus (js_div dist maxDist))
      in round_times_255 strength)"

definition colorRange_body :: "ColorRangeOptions \<Rightarrow> byte list \<Rightarrow> nat \<Rightarrow> byte list \<Rightarrow> byte list" where
  "colorRange_body options src i d =
     (let v = toUint8Clamp (colorRange_value options (src ! i) (src ! (i + 1)) (src ! (i + 2)))
      in d[i := v, i + 1 := v, i + 2 := v, i + 3 := v])"

definition selectColorRange :: "ImageData \<Rightarrow> ColorRangeOptions \<Rightarrow> Selection" where
  "selectColorRange imageData options =
     (let m0 = blank (width imageData) (height imageData);
          m = m0\<lparr>data := fold (colorRange_body options (data imageData))
                              (stride4 (length (data imageData))) (data m0)\<rparr>
      in \<lparr>mask = m, bounds = computeBounds m, active = True\<rparr>)"

section \<open>Applying a selection as alpha\<close>

text \<open>
  \<open>applySelectionAsAlpha\<close> writes into the caller's buffer, and nothing prevents the
  caller from passing a selection whose mask is that same buffer.  Buffers therefore live
  in a store, and the image and the mask are given by their references.  A mask byte
  beyond the mask's length is \<open>undefined\<close>; \<open>Math.min\<close> is then \<open>NaN\<close>, stored as 0.
\<close>

type_synonym ref = nat
type_synonym store = "ref \<Rightarrow> byte list"

definition applyAlpha_body :: "ref \<Rightarrow> ref \<Rightarrow> nat \<Rightarrow> store \<Rightarrow> store" where
  "applyAlpha_body img msk i st =
     st(img := (st img)[i + 3 :=
        (case rd (st msk) i of
           Some strength \<Rightarrow> clamp8 (min (uint (st img ! (i + 3))) strength)
         | None \<Rightarrow> 0)])"

definition applySelectionAsAlpha :: "store \<Rightarrow> ref \<Rightarrow> ref \<Rightarrow> store" where
  "applySelectionAsAlpha st img msk =
     fold (applyAlpha_body img msk) (stride4 (length (st img))) st"

text \<open>
  The loop body on the image buffer alone, for a mask \<open>maskData\<close> that is another buffer.
\<close>

definition alpha_px :: "byte list \<Rightarrow> nat \<Rightarrow> byte list \<Rightarrow> byte list" where
  "alpha_px maskData i d =
     d[i + 3 := (case rd maskData i of
                   Some strength \<Rightarrow> clamp8 (min (uint (d ! (i + 3))) strength)
                 | None \<Rightarrow> 0)]"

section \<open>Quick selection\<close>

text \<open>
  \<open>quickSelect\<close> starts with \<open>edges = computeEdgeMap(imageData)\<close>, a \<open>Float32Array\<close> with
  one gradient magnitude per pixel.  Its values are not modelled: the edge map is a
  parameter, and what is proved holds for every edge map.

  The seed coordinates, the radius and the coordinates in the queue are doubles.  They
  are finite numbers, hence reals, and every arithmetic operation of the code on them
  rounds its exact result to a double.  That rounding is the parameter \<open>qs_fl\<close>; what is
  proved holds for every rounding function.  Depths are small integers, on which the
  arithmetic of doubles is exact.

  What the loop reads: the rounding and the arguments of the call.
\<close>

record QuickSelectCall =
  qs_fl :: "real \<Rightarrow> real"
  qs_edges :: "real list"
  qs_image :: ImageData
  qs_startX :: real
  qs_startY :: real
  qs_radius :: real
  qs_mode :: SelectionMode

text \<open>A read \<open>data[i]\<close> at an index computed from numbers, which can be negative.\<close>

definition rd_int :: "byte list \<Rightarrow> int \<Rightarrow> int option" where
  "rd_int d i = (if 0 \<le> i then rd d (nat i) else None)"

text \<open>
  \<open>dr + dg + db > colorTolerance * 3\<close>, on integers.  When the seed lies outside the
  buffer the target channels are \<open>undefined\<close>, the differences are \<open>NaN\<close> and the
  comparison is false.
\<close>

definition color_far :: "QuickSelectCall \<Rightarrow> nat \<Rightarrow> bool" where
  "color_far c pos =
     (let d = data (qs_image c); idx = pos * 4;
          startIdx = (\<lfloor>qs_startY c\<rfloor> * int (width (qs_image c)) + \<lfloor>qs_startX c\<rfloor>) * 4
      in case (rd d idx, rd d (idx + 1), rd d (idx + 2),
               rd_int d startIdx, rd_int d (startIdx + 1), rd_int d (startIdx + 2)) of
           (Some r, Some g, Some b, Some targetR, Some targetG, Some targetB) \<Rightarrow>
             \<bar>r - targetR\<bar> + \<bar>g - targetG\<bar> + \<bar>b - targetB\<bar> > 50 * 3
         | _ \<Rightarrow> False)"

text \<open>\<open>const maxRadius = radius * 3\<close>, one rounded multiplication.\<close>

definition maxRadius :: "QuickSelectCall \<Rightarrow> real" where
  "maxRadius c = qs_fl c (qs_radius c * 3)"

text \<open>
  \<open>const dist = Math.sqrt((x - startX) ** 2 + (y - startY) ** 2)\<close>: two subtractions,
  two squares, a sum and a square root, each rounded.
\<close>

definition dist :: "QuickSelectCall \<Rightarrow> real \<Rightarrow> real \<Rightarrow> real" where
  "dist c x y =
     (let fl = qs_fl c
      in fl (sqrt (fl (fl ((fl (x - qs_startX c))\<^sup>2) + fl ((fl (y - qs_startY c))\<^sup>2)))))"

text \<open>\<open>const edgeThreshold = 0.3\<close>: the double nearest to three tenths.\<close>

definition edgeThreshold :: "QuickSelectCall \<Rightarrow> real" where
  "edgeThreshold c = qs_fl c (3 / 10)"

text \<open>
  The three tests between \<open>visited.add(pos)\<close> and the write into the mask: the cell is
  written when none of them executes \<open>continue\<close>.
\<close>

definition accepted :: "QuickSelectCall \<Rightarrow> real \<times> real \<times> nat \<Rightarrow> nat \<Rightarrow> bool" where
  "accepted c = (\<lambda>(x, y, depth) pos.
     if dist c x y > maxRadius c then False
     else if qs_edges c ! pos > edgeThreshold c \<and> depth > 1 then False
     else if color_far c pos \<and> depth > 1 then False
     else True)"

definition write_mask :: "SelectionMode \<Rightarrow> nat \<Rightarrow> byte list \<Rightarrow> byte list" where
  "write_mask mode maskIdx d =
     (if mode = New \<or> mode = Add
      then d[maskIdx := 255, maskIdx + 1 := 255, maskIdx + 2 := 255, maskIdx + 3 := 255]
      else if mode = Subtract
      then d[maskIdx := 0, maskIdx + 1 := 0, maskIdx + 2 := 0, maskIdx + 3 := 0]
      else d)"

text \<open>
  One iteration of the \<open>while\<close> loop, on the entry taken from the front of the queue:
  the rest of the queue, the visited set and the mask buffer before and after.
\<close>

definition qs_step ::
  "QuickSelectCall \<Rightarrow> real \<times> real \<times> nat \<Rightarrow> (real \<times> real \<times> nat) list \<times> nat set \<times> byte list
     \<Rightarrow> (real \<times> real \<times> nat) list \<times> nat set \<times> byte list" where
  "qs_step c = (\<lambda>(x, y, depth) (queue, visited, d).
     let ix = \<lfloor>x\<rfloor>; iy = \<lfloor>y\<rfloor>;
         w = int (width (qs_image c)); h = int (height (qs_image c))
     in if ix < 0 \<or> ix \<ge> w \<or> iy < 0 \<or> iy \<ge> h then (queue, visited, d)
        else
          let pos = nat (iy * w + ix) in
          if pos \<in> visited then (queue, visited, d)
          else if \<not> accepted c (x, y, depth) pos then (queue, insert pos visited, d)
          else
            (if real depth < maxRadius c
             then queue @ [(qs_fl c (x - 1), y, depth + 1), (qs_fl c (x + 1), y, depth + 1),
                           (x, qs_fl c (y - 1), depth + 1), (x, qs_fl c (y + 1), depth + 1)]
             else queue,
             insert pos visited,
             write_mask (qs_mode c) (pos * 4) d))"

text \<open>
  The number of pixels not yet visited: it decreases whenever an iteration visits a
  cell, and otherwise the queue gets shorter.
\<close>

definition unvisited :: "QuickSelectCall \<Rightarrow> nat set \<Rightarrow> nat" where
  "unvisited c visited = card ({0..<width (qs_image c) * height (qs_image c)} - visited)"

function qs_loop ::
  "QuickSelectCall \<Rightarrow> (real \<times> real \<times> nat) list \<times> nat set \<times> byte list \<Rightarrow> byte list" where
  "qs_loop c ([], visited, d) = d"
| "qs_loop c (e # queue, visited, d) = qs_loop c (qs_step c e (queue, visited, d))"
  by pat_completeness auto

text \<open>
  \<open>quickSelect\<close>, with the rounding \<open>fl\<close> and the edge map \<open>edges\<close> as its first two
  arguments: the mask starts as a copy of the existing selection's buffer (the
  constructor throws unless its length fits the image) or as a zero-filled buffer.
\<close>

definition quickSelect ::
  "(real \<Rightarrow> real) \<Rightarrow> real list \<Rightarrow> ImageData \<Rightarrow> real \<Rightarrow> real \<Rightarrow> real \<Rightarrow> SelectionMode
     \<Rightarrow> Selection option \<Rightarrow> error + Selection" where
  "quickSelect fl edges imageData startX startY radius mode existingSelection =
     (case (case existingSelection of
              Some existing \<Rightarrow>
                new_ImageData_from (data (mask existing)) (width imageData) (height imageData)
            | None \<Rightarrow> Inr (blank (width imageData) (height imageData))) of
        Inl e \<Rightarrow> Inl e
      | Inr m0 \<Rightarrow>
          let c = \<lparr>qs_fl = fl, qs_edges = edges, qs_image = imageData, qs_startX = startX,
                   qs_startY = startY, qs_radius = radius, qs_mode = mode\<rparr>;
              m = m0\<lparr>data := qs_loop c ([(startX, startY, 0)], {}, data m0)\<rparr>
          in Inr \<lparr>mask = m, bounds = computeBounds m, active = True\<rparr>)"

section \<open>Subject selection\<close>

text \<open>
  \<open>selectSubject\<close> first computes a saliency map, a \<open>Float32Array\<close> with one value per
  pixel, from the edge map, the distance to the centre and the colour saturation.  Its
  floating-point values are not modelled: the saliency map is a parameter.  The rest of
  the function is modelled as written, for images with at least one column.

  One iteration of the inner \<open>while\<close> loop, on the position popped from the stack.  The
  stack is a list with its top first; \<open>region\<close> collects the accepted positions and
  \<open>totalScore\<close> their saliency.
\<close>

definition flood_step ::
  "real list \<Rightarrow> nat \<Rightarrow> nat \<Rightarrow> nat \<Rightarrow> nat list \<times> nat set \<times> nat list \<times> real
     \<Rightarrow> nat list \<times> nat set \<times> nat list \<times> real" where
  "flood_step saliency w h pos = (\<lambda>(stack, visited, region, totalScore).
     if pos \<in> visited then (stack, visited, region, totalScore)
     else if saliency ! pos < 35 / 100 * (8 / 10)
     then (stack, insert pos visited, region, totalScore)
     else
       let px = pos mod w; py = pos div w;
           s1 = (if px > 0 then (pos - 1) # stack else stack);
           s2 = (if int px < int w - 1 then (pos + 1) # s1 else s1);
           s3 = (if py > 0 then (pos - w) # s2 else s2);
           s4 = (if int py < int h - 1 then (pos + w) # s3 else s3)
       in (s4, insert pos visited, region @ [pos], totalScore + saliency ! pos))"

text \<open>
  A bound on the positions that can still be pushed: the end of the image or of the
  row of a stacked position, whichever is larger.
\<close>

definition row_end :: "nat \<Rightarrow> nat \<Rightarrow> nat" where
  "row_end w pos = max (pos + 1) ((pos div w + 1) * w)"

definition pos_bound :: "nat \<Rightarrow> nat \<Rightarrow> nat list \<Rightarrow> nat" where
  "pos_bound w h stack = Max (insert (w * h) (row_end w ` set stack))"

function flood_loop ::
  "real list \<Rightarrow> nat \<Rightarrow> nat \<Rightarrow> nat list \<times> nat set \<times> nat list \<times> real
     \<Rightarrow> nat set \<times> nat list \<times> real" where
  "flood_loop saliency w h ([], visited, region, totalScore) = (visited, region, totalScore)"
| "flood_loop saliency w h (pos # stack, visited, region, totalScore) =
     flood_loop saliency w h (flood_step saliency w h pos (stack, visited, region, totalScore))"
  by pat_completeness auto

text \<open>The seed positions, in the order of the loops \<open>for y = 1 .. h - 2, for x = 1 .. w - 2\<close>.\<close>

definition interior :: "nat \<Rightarrow> nat \<Rightarrow> (nat \<times> nat) list" where
  "interior w h = concat (map (\<lambda>y. map (\<lambda>x. (x, y)) [1..<w - 1]) [1..<h - 1])"

text \<open>
  One iteration of the seed loops: an unvisited pixel of saliency at least 0.35 starts
  a flood fill, and the region found is kept when \<open>region.length > 100\<close>.
\<close>

definition seed_step ::
  "real list \<Rightarrow> nat \<Rightarrow> nat \<Rightarrow> nat \<times> nat \<Rightarrow> nat set \<times> (nat list \<times> real) list
     \<Rightarrow> nat set \<times> (nat list \<times> real) list" where
  "seed_step saliency w h = (\<lambda>(x, y) (visited, regions).
     let idx = y * w + x in
     if idx \<in> visited \<or> saliency ! idx < 35 / 100 then (visited, regions)
     else
       case flood_loop saliency w h ([idx], visited, [], 0) of
         (visited', region, totalScore) \<Rightarrow>
           (visited', if length region > 100 then regions @ [(region, totalScore)] else regions))"

definition find_regions :: "real list \<Rightarrow> nat \<Rightarrow> nat \<Rightarrow> (nat list \<times> real) list" where
  "find_regions saliency w h = snd (fold (seed_step saliency w h) (interior w h) ({}, []))"

definition paint_region :: "nat list \<Rightarrow> byte list \<Rightarrow> byte list" where
  "paint_region points d =
     fold (\<lambda>pos d. d[pos * 4 := 255, pos * 4 + 1 := 255, pos * 4 + 2 := 255, pos * 4 + 3 := 255])
       points d"

text \<open>
  \<open>selectSubject\<close>: the regions are sorted by descending score (the sort is stable), the
  first one is painted into the zero-filled mask, and the mask is closed with radius 3.
\<close>

definition selectSubject :: "real list \<Rightarrow> ImageData \<Rightarrow> Selection" where
  "selectSubject saliency imageData =
     (let w = width imageData; h = height imageData;
          m0 = blank w h;
          regions = find_regions saliency w h;
          painted = (if length regions > 0
                     then let mainRegion = hd (sort_key (\<lambda>r. - snd r) regions)
                          in m0\<lparr>data := paint_region (fst mainRegion) (data m0)\<rparr>
                     else m0);
          m = morphClose painted 3
      in \<lparr>mask = m, bounds = computeBounds m, active = True\<rparr>)"

text \<open>A mask in which no pixel is selected.\<close>

definition zero_strength :: "ImageData \<Rightarrow> bool" where
  "zero_strength m \<longleftrightarrow>
     (\<forall>x < width m. \<forall>y < height m. data m ! ((y * width m + x) * 4) = 0)"



section \<open>Properties\<close>

lemma uint_clamp8: "uint (clamp8 v) = max 0 (min 255 v)"
  unfolding clamp8_def by (simp add: uint_word_of_int take_bit_int_eq_self)

lemma uint_byte_le: "uint (b :: byte) \<le> 255"
  using uint_lt2p [of b] by simp

lemma clamp8_inv_inv: "clamp8 (255 - uint (clamp8 (255 - uint (b :: byte)))) = b"
proof -
  have "0 \<le> uint b" "uint b \<le> 255" by (simp_all add: uint_byte_le)
  then have "uint (clamp8 (255 - uint b)) = 255 - uint b"
    by (simp add: uint_clamp8)
  then have "clamp8 (255 - uint (clamp8 (255 - uint b))) = clamp8 (uint b)" by simp
  also have "\<dots> = b" unfolding clamp8_def using \<open>0 \<le> uint b\<close> \<open>uint b \<le> 255\<close> by simp
  finally show ?thesis .
qed


lemma stride_cases:
  assumes "j div 4 = (m::nat)"
  obtains "j = 4 * m" "j mod 4 = 0" | "j = 4 * m + 1" "j mod 4 = 1"
        | "j = 4 * m + 2" "j mod 4 = 2" | "j = 4 * m + 3" "j mod 4 = 3"
proof -
  have "j mod 4 < 4" by simp
  then have "j mod 4 = 0 \<or> j mod 4 = 1 \<or> j mod 4 = 2 \<or> j mod 4 = 3" by linarith
  moreover have "j = 4 * m + j mod 4" using assms by presburger
  ultimately show thesis using that by (elim disjE) simp_all
qed

lemma stride_other:
  assumes "j div 4 \<noteq> (m::nat)"
  shows "j \<noteq> 4 * m" "j \<noteq> 4 * m + 1" "j \<noteq> 4 * m + 2" "j \<noteq> 4 * m + 3"
  using assms by presburger+

lemma fold_stride_nth:
  fixes body :: "nat \<Rightarrow> 'a list \<Rightarrow> 'a list"
  assumes len: "\<And>i d. length (body i d) = length d"
    and loc: "\<And>m d j. j < length d \<Longrightarrow>
               body (4 * m) d ! j = (if j div 4 = m then P m (j mod 4) (d ! j) else d ! j)"
    and j: "j < length d"
  shows "fold body (map (\<lambda>k. 4 * k) [0..<n]) d ! j =
           (if j div 4 < n then P (j div 4) (j mod 4) (d ! j) else d ! j)"
proof (induction n)
  case 0
  show ?case by simp
next
  case (Suc n)
  let ?d' = "fold body (map (\<lambda>k. 4 * k) [0..<n]) d"
  have len': "length ?d' = length d"
    by (induction n) (simp_all add: len)
  have "fold body (map (\<lambda>k. 4 * k) [0..<Suc n]) d ! j = body (4 * n) ?d' ! j"
    by simp
  also have "\<dots> = (if j div 4 = n then P n (j mod 4) (?d' ! j) else ?d' ! j)"
    using j len' by (intro loc) simp
  also have "\<dots> = (if j div 4 < Suc n then P (j div 4) (j mod 4) (d ! j) else d ! j)"
    using Suc by (cases "j div 4 = n") (auto simp: less_Suc_eq)
  finally show ?case .
qed

lemma length_fold_stride:
  assumes "\<And>i d. length (body i d) = length d"
  shows "length (fold body is d) = length d"
  by (induction "is" arbitrary: d) (simp_all add: assms)

lemma stride4_loop_nth:
  fixes body :: "nat \<Rightarrow> 'a list \<Rightarrow> 'a list"
  assumes len: "\<And>i d. length (body i d) = length d"
    and loc: "\<And>m d j. j < length d \<Longrightarrow>
               body (4 * m) d ! j = (if j div 4 = m then P m (j mod 4) (d ! j) else d ! j)"
    and j: "j < length d" and n: "length d \<le> n"
  shows "fold body (stride4 n) d ! j = P (j div 4) (j mod 4) (d ! j)"
proof -
  from j n have "j div 4 < (n + 3) div 4" by presburger
  then show ?thesis
    unfolding stride4_def using fold_stride_nth [of body P j d, OF len loc j] by simp
qed

lemma length_invert_body: "length (invert_body i d) = length d"
  by (simp add: invert_body_def Let_def)

lemma invert_body_nth:
  assumes "j < length d"
  shows "invert_body (4 * m) d ! j =
     (if j div 4 = m then (if j mod 4 = 3 then 255 else clamp8 (255 - uint (d ! j))) else d ! j)"
proof (cases "j div 4 = m")
  case True
  have "invert_body (4 * m) d ! j = (if j mod 4 = 3 then 255 else clamp8 (255 - uint (d ! j)))"
    using True assms by (cases rule: stride_cases) (simp_all add: invert_body_def Let_def)
  with True show ?thesis by simp
next
  case False
  from stride_other [OF this] False show ?thesis
    by (simp add: invert_body_def Let_def)
qed

lemma invert_data_nth:
  assumes "j < length d" "length d \<le> n"
  shows "fold invert_body (stride4 n) d ! j =
     (if j mod 4 = 3 then 255 else clamp8 (255 - uint (d ! j)))"
  using stride4_loop_nth [of invert_body "\<lambda>m c v. if c = 3 then 255 else clamp8 (255 - uint v)",
      OF length_invert_body invert_body_nth assms]
  by simp

lemma length_invert_data: "length (fold invert_body is d) = length d"
  by (rule length_fold_stride) (rule length_invert_body)

lemma new_ImageData_from_Inr:
  "new_ImageData_from d sw sh = Inr m \<Longrightarrow> m = \<lparr>width = sw, height = sh, data = d\<rparr>"
  by (auto simp: new_ImageData_from_def split: if_splits)

lemma new_ImageData_from_same_length:
  "new_ImageData_from d sw sh = Inr m \<Longrightarrow> length d' = length d \<Longrightarrow>
   new_ImageData_from d' sw sh = Inr \<lparr>width = sw, height = sh, data = d'\<rparr>"
  by (auto simp: new_ImageData_from_def split: if_splits)

text \<open>
  Claim C5, as the code has it: when \<open>invertSelection\<close> succeeds on a selection, inverting
  the result succeeds too and restores the R, G and B bytes of every pixel, while every
  alpha byte is 255 afterwards.  The round trip is therefore the identity on the buffer
  exactly when every alpha byte of the original was already 255.  The bounds are the
  full rectangle of the engine.
\<close>

theorem invert_invert_restores_rgb:
  assumes "invertSelection eng sel = Inr s1"
  shows "\<exists>s2. invertSelection eng s1 = Inr s2 \<and>
           length (data (mask s2)) = length (data (mask sel)) \<and>
           (\<forall>j < length (data (mask sel)).
              data (mask s2) ! j = (if j mod 4 = 3 then 255 else data (mask sel) ! j)) \<and>
           (data (mask s2) = data (mask sel) \<longleftrightarrow>
              (\<forall>j < length (data (mask sel)). j mod 4 = 3 \<longrightarrow> data (mask sel) ! j = 255)) \<and>
           bounds s2 = \<lparr>rect_x = 0, rect_y = 0,
                         rect_width = engine_width eng, rect_height = engine_height eng\<rparr>"
proof -
  let ?d = "data (mask sel)"
  let ?d1 = "fold invert_body (stride4 (length ?d)) ?d"
  let ?d2 = "fold invert_body (stride4 (length ?d1)) ?d1"
  obtain m where m: "new_ImageData_from ?d (engine_width eng) (engine_height eng) = Inr m"
    using assms by (auto simp: invertSelection_def split: sum.splits)
  then have m_eq: "m = \<lparr>width = engine_width eng, height = engine_height eng, data = ?d\<rparr>"
    by (rule new_ImageData_from_Inr)
  have s1: "data (mask s1) = ?d1"
    using assms m m_eq by (auto simp: invertSelection_def)
  have len1: "length ?d1 = length ?d" by (simp add: length_invert_data)
  have m1: "new_ImageData_from ?d1 (engine_width eng) (engine_height eng) =
              Inr \<lparr>width = engine_width eng, height = engine_height eng, data = ?d1\<rparr>"
    by (rule new_ImageData_from_same_length [OF m len1])
  define s2 where "s2 = \<lparr>mask = \<lparr>width = engine_width eng, height = engine_height eng, data = ?d2\<rparr>,
       bounds = \<lparr>rect_x = 0, rect_y = 0,
                         rect_width = engine_width eng, rect_height = engine_height eng\<rparr>,
       active = True\<rparr>"
  have inv2: "invertSelection eng s1 = Inr s2"
    using m1 s1 by (simp add: invertSelection_def s2_def)
  have nth: "?d2 ! j = (if j mod 4 = 3 then 255 else ?d ! j)" if "j < length ?d" for j
    using that by (simp add: invert_data_nth length_invert_data clamp8_inv_inv)
  have eq_iff: "?d2 = ?d \<longleftrightarrow> (\<forall>j < length ?d. j mod 4 = 3 \<longrightarrow> ?d ! j = 255)"
  proof
    assume e: "?d2 = ?d"
    show "\<forall>j < length ?d. j mod 4 = 3 \<longrightarrow> ?d ! j = 255"
    proof (intro allI impI)
      fix j assume "j < length ?d" "j mod 4 = 3"
      with nth [of j] e show "?d ! j = 255" by simp
    qed
  next
    assume a: "\<forall>j < length ?d. j mod 4 = 3 \<longrightarrow> ?d ! j = 255"
    show "?d2 = ?d"
    proof (rule nth_equalityI)
      show "length ?d2 = length ?d" by (simp add: length_invert_data)
    next
      fix j assume "j < length ?d2"
      then have "j < length ?d" by (simp add: length_invert_data)
      with nth [of j] a show "?d2 ! j = ?d ! j" by auto
    qed
  qed
  have "data (mask s2) = ?d2" "bounds s2 = \<lparr>rect_x = 0, rect_y = 0,
                         rect_width = engine_width eng, rect_height = engine_height eng\<rparr>"
    by (simp_all add: s2_def)
  with inv2 nth eq_iff show ?thesis by (intro exI [of _ s2]) (simp add: length_invert_data)
qed



text \<open>
  The theorem applied to a one-pixel mask \<open>(10, 20, 30, 40)\<close>.
\<close>

theorem invert_invert_witness:
  "invertSelection \<lparr>engine_width = 1, engine_height = 1\<rparr>
     \<lparr>mask = \<lparr>width = 1, height = 1, data = [10, 20, 30, 40]\<rparr>,
      bounds = \<lparr>rect_x = 0, rect_y = 0, rect_width = 1, rect_height = 1\<rparr>, active = True\<rparr>
   = Inr \<lparr>mask = \<lparr>width = 1, height = 1, data = [245, 235, 225, 255]\<rparr>,
      bounds = \<lparr>rect_x = 0, rect_y = 0, rect_width = 1, rect_height = 1\<rparr>, active = True\<rparr>
   \<and>
   (\<exists>s2. invertSelection \<lparr>engine_width = 1, engine_height = 1\<rparr>
     \<lparr>mask = \<lparr>width = 1, height = 1, data = [245, 235, 225, 255]\<rparr>,
      bounds = \<lparr>rect_x = 0, rect_y = 0, rect_width = 1, rect_height = 1\<rparr>, active = True\<rparr>
      = Inr s2 \<and> data (mask s2) ! 0 = 10 \<and> data (mask s2) ! 1 = 20 \<and>
        data (mask s2) ! 2 = 30 \<and> data (mask s2) ! 3 = 255)"
proof -
  let ?e = "\<lparr>engine_width = 1, engine_height = 1\<rparr>"
  let ?s0 = "\<lparr>mask = \<lparr>width = 1, height = 1, data = [10, 20, 30, 40]\<rparr>,
      bounds = \<lparr>rect_x = 0, rect_y = 0, rect_width = 1, rect_height = 1\<rparr>, active = True\<rparr>"
  let ?s1 = "\<lparr>mask = \<lparr>width = 1, height = 1, data = [245, 235, 225, 255]\<rparr>,
      bounds = \<lparr>rect_x = 0, rect_y = 0, rect_width = 1, rect_height = 1\<rparr>, active = True\<rparr>"
  have h: "invertSelection ?e ?s0 = Inr ?s1"
    by (simp add: invertSelection_def new_ImageData_from_def stride4_def invert_body_def clamp8_def)
  from invert_invert_restores_rgb [OF h] obtain s2 where
    s2: "invertSelection ?e ?s1 = Inr s2"
    and nth: "\<forall>j<length (data (mask ?s0)).
                data (mask s2) ! j = (if j mod 4 = 3 then 255 else data (mask ?s0) ! j)"
    by blast
  have "data (mask s2) ! 0 = 10" using nth [rule_format, of 0] by simp
  moreover have "data (mask s2) ! 1 = 20" using nth [rule_format, of 1] by simp
  moreover have "data (mask s2) ! 2 = 30" using nth [rule_format, of 2] by simp
  moreover have "data (mask s2) ! 3 = 255" using nth [rule_format, of 3] by simp
  ultimately show ?thesis using h s2 by blast
qed

text \<open>
  Claim C5 as stated fails on a mask whose alpha is not 255, such as the untouched
  pixels of a fresh \<open>quickSelect\<close> mask: \<open>(0, 0, 0, 0)\<close> comes back as \<open>(0, 0, 0, 255)\<close>.
\<close>

theorem invert_invert_counterexample:
  "invertSelection \<lparr>engine_width = 1, engine_height = 1\<rparr>
     \<lparr>mask = \<lparr>width = 1, height = 1, data = [0, 0, 0, 0]\<rparr>,
      bounds = \<lparr>rect_x = 0, rect_y = 0, rect_width = 0, rect_height = 0\<rparr>, active = True\<rparr>
   = Inr \<lparr>mask = \<lparr>width = 1, height = 1, data = [255, 255, 255, 255]\<rparr>,
      bounds = \<lparr>rect_x = 0, rect_y = 0, rect_width = 1, rect_height = 1\<rparr>, active = True\<rparr>
   \<and>
   invertSelection \<lparr>engine_width = 1, engine_height = 1\<rparr>
     \<lparr>mask = \<lparr>width = 1, height = 1, data = [255, 255, 255, 255]\<rparr>,
      bounds = \<lparr>rect_x = 0, rect_y = 0, rect_width = 1, rect_height = 1\<rparr>, active = True\<rparr>
   = Inr \<lparr>mask = \<lparr>width = 1, height = 1, data = [0, 0, 0, 255]\<rparr>,
      bounds = \<lparr>rect_x = 0, rect_y = 0, rect_width = 1, rect_height = 1\<rparr>, active = True\<rparr>
   \<and> [0, 0, 0, 255] \<noteq> [0, 0, 0, 0 :: byte]"
  by (simp add: invertSelection_def new_ImageData_from_def stride4_def invert_body_def clamp8_def)



lemma coords_Suc: "coords w (Suc h) = coords w h @ map (\<lambda>x. (x, h)) [0..<w]"
  by (simp add: coords_def)

lemma upt_mult_Suc: "[0..<w * Suc h] = [0..<w * h] @ map (\<lambda>x. w * h + x) [0..<w]"
proof -
  have "[0..<w * h + w] = [0..<w * h] @ [w * h..<w * h + w]"
    by (rule upt_add_eq_append) simp
  moreover have "[w * h..<w * h + w] = map (\<lambda>x. w * h + x) [0..<w]"
    by (simp only: map_add_upt [symmetric] add.commute)
  moreover have "w * Suc h = w * h + w" by simp
  ultimately show ?thesis by (simp only:)
qed

lemma coords_eq: "coords w h = map (\<lambda>p. (p mod w, p div w)) [0..<w * h]"
proof (induction h)
  case 0
  show ?case by (simp add: coords_def)
next
  case (Suc h)
  have "map (\<lambda>p. (p mod w, p div w)) (map (\<lambda>x. w * h + x) [0..<w]) = map (\<lambda>x. (x, h)) [0..<w]"
    by simp
  then show ?case using Suc by (simp only: coords_Suc upt_mult_Suc map_append)
qed


lemma length_put_gray: "length (put_gray i v d) = length d"
  by (simp add: put_gray_def)

lemma put_gray_nth:
  assumes "j < length d"
  shows "put_gray (4 * m) v d ! j =
     (if j div 4 = m then (if j mod 4 = 3 then 255 else clamp8 v) else d ! j)"
proof (cases "j div 4 = m")
  case True
  have "put_gray (4 * m) v d ! j = (if j mod 4 = 3 then 255 else clamp8 v)"
    using True assms by (cases rule: stride_cases) (simp_all add: put_gray_def)
  with True show ?thesis by simp
next
  case False
  from stride_other [OF this] False show ?thesis
    by (simp add: put_gray_def)
qed

lemma gray_loop_nth:
  assumes j: "j < length d0"
  shows "fold (\<lambda>(x, y) d. put_gray ((y * w + x) * 4) (V x y) d) (coords w h) d0 ! j =
     (if j div 4 < w * h
      then (if j mod 4 = 3 then 255 else clamp8 (V ((j div 4) mod w) ((j div 4) div w)))
      else d0 ! j)"
proof -
  define body where "body = (\<lambda>i d. put_gray i (V ((i div 4) mod w) ((i div 4) div w)) d)"
  have eq: "(\<lambda>(x, y) d. put_gray ((y * w + x) * 4) (V x y) d) \<circ> (\<lambda>p. (p mod w, p div w))
              = body \<circ> (\<lambda>k. 4 * k)"
  proof (rule ext)
    fix p
    have "(p div w * w + p mod w) * 4 = 4 * p" by simp
    then show "((\<lambda>(x, y) d. put_gray ((y * w + x) * 4) (V x y) d) \<circ> (\<lambda>p. (p mod w, p div w))) p
              = (body \<circ> (\<lambda>k. 4 * k)) p"
      by (simp only: body_def comp_def prod.case nonzero_mult_div_cancel_left)
  qed
  have "fold (\<lambda>(x, y) d. put_gray ((y * w + x) * 4) (V x y) d) (coords w h) d0
          = fold body (map (\<lambda>k. 4 * k) [0..<w * h]) d0"
    by (simp only: coords_eq fold_map eq)
  moreover have "fold body (map (\<lambda>k. 4 * k) [0..<w * h]) d0 ! j =
      (if j div 4 < w * h
       then (\<lambda>m c v. if c = 3 then 255 else clamp8 (V (m mod w) (m div w))) (j div 4) (j mod 4) (d0 ! j)
       else d0 ! j)"
  proof (rule fold_stride_nth [OF _ _ j])
    show "length (body i d) = length d" for i d
      by (simp add: body_def length_put_gray)
    show "body (4 * m) d ! j = (if j div 4 = m
            then if j mod 4 = 3 then 255 else clamp8 (V (m mod w) (m div w)) else d ! j)"
      if "j < length d" for m d j
      using put_gray_nth [OF that] by (simp add: body_def)
  qed
  ultimately show ?thesis by simp
qed

lemma length_gray_loop:
  "length (fold (\<lambda>(x, y) d. put_gray ((y * w + x) * 4) (V x y) d) cs d0) = length d0"
  by (induction cs arbitrary: d0) (simp_all add: length_put_gray split: prod.splits)


lemma offsets_iff: "(dx, dy) \<in> set (offsets r) \<longleftrightarrow> - r \<le> dx \<and> dx \<le> r \<and> - r \<le> dy \<and> dy \<le> r"
  by (force simp: offsets_def)

lemma fold_max_ge_acc: "acc \<le> fold (morph_step max m radius x y) offs acc"
proof (induction offs arbitrary: acc)
  case Nil
  show ?case by simp
next
  case (Cons off offs)
  have "acc \<le> morph_step max m radius x y off acc"
    by (simp add: morph_step_def Let_def split: prod.splits)
  also have "\<dots> \<le> fold (morph_step max m radius x y) offs (morph_step max m radius x y off acc)"
    by (rule Cons.IH)
  finally show ?case by simp
qed

lemma fold_max_ge_mem:
  assumes "(dx, dy) \<in> set offs"
    and "\<not> real_of_int (dx * dx + dy * dy) > radius * radius"
    and "0 \<le> int x + dx" "int x + dx < int (width m)"
    and "0 \<le> int y + dy" "int y + dy < int (height m)"
  shows "uint (data m ! (nat ((int y + dy) * int (width m) + (int x + dx)) * 4))
           \<le> fold (morph_step max m radius x y) offs acc"
  using assms(1)
proof (induction offs arbitrary: acc)
  case Nil
  then show ?case by simp
next
  case (Cons off offs)
  show ?case
  proof (cases "off = (dx, dy)")
    case True
    have "uint (data m ! (nat ((int y + dy) * int (width m) + (int x + dx)) * 4))
            \<le> morph_step max m radius x y off acc"
      using assms(2-) True by (simp add: morph_step_def Let_def)
    also have "\<dots> \<le> fold (morph_step max m radius x y) offs (morph_step max m radius x y off acc)"
      by (rule fold_max_ge_acc)
    finally show ?thesis by simp
  next
    case False
    with Cons.prems have "(dx, dy) \<in> set offs" by simp
    from Cons.IH [OF this] show ?thesis by simp
  qed
qed

lemma fold_max_range:
  "0 \<le> acc \<Longrightarrow> acc \<le> 255 \<Longrightarrow>
   0 \<le> fold (morph_step max m radius x y) offs acc \<and> fold (morph_step max m radius x y) offs acc \<le> 255"
proof (induction offs arbitrary: acc)
  case Nil
  then show ?case by simp
next
  case (Cons off offs)
  have "0 \<le> morph_step max m radius x y off acc \<and> morph_step max m radius x y off acc \<le> 255"
    using Cons.prems uint_byte_le [of "data m ! k" for k]
    by (auto simp: morph_step_def Let_def le_max_iff_disj min_le_iff_disj split: prod.splits)
  then show ?case using Cons.IH by simp
qed

lemma fold_min_range:
  "0 \<le> acc \<Longrightarrow> acc \<le> 255 \<Longrightarrow>
   0 \<le> fold (morph_step min m radius x y) offs acc \<and> fold (morph_step min m radius x y) offs acc \<le> 255"
proof (induction offs arbitrary: acc)
  case Nil
  then show ?case by simp
next
  case (Cons off offs)
  have "0 \<le> morph_step min m radius x y off acc \<and> morph_step min m radius x y off acc \<le> 255"
    using Cons.prems uint_byte_le [of "data m ! k" for k]
    by (auto simp: morph_step_def Let_def le_max_iff_disj min_le_iff_disj split: prod.splits)
  then show ?case using Cons.IH by simp
qed

lemma fold_min_ge:
  assumes "L \<le> acc"
    and "\<And>dx dy. (dx, dy) \<in> set offs \<Longrightarrow> \<not> real_of_int (dx * dx + dy * dy) > radius * radius \<Longrightarrow>
           0 \<le> int x + dx \<Longrightarrow> int x + dx < int (width m) \<Longrightarrow>
           0 \<le> int y + dy \<Longrightarrow> int y + dy < int (height m) \<Longrightarrow>
           L \<le> uint (data m ! (nat ((int y + dy) * int (width m) + (int x + dx)) * 4))"
  shows "L \<le> fold (morph_step min m radius x y) offs acc"
  using assms
proof (induction offs arbitrary: acc)
  case Nil
  then show ?case by simp
next
  case (Cons off offs)
  obtain dx dy where off: "off = (dx, dy)" by (cases off)
  have "L \<le> morph_step min m radius x y off acc"
    using Cons.prems(1) Cons.prems(2) [of dx dy] off
    by (simp add: morph_step_def Let_def not_less)
  then show ?case using Cons.IH Cons.prems(2) by simp
qed


lemma px_index:
  assumes "x < w" "y < (h::nat)"
  shows "y * w + x < w * h" "(y * w + x) mod w = x" "(y * w + x) div w = y"
proof -
  have "y * w + x < y * w + w" using assms by simp
  also have "\<dots> = Suc y * w" by simp
  also have "\<dots> \<le> h * w" using assms by (intro mult_le_mono1) simp
  finally show "y * w + x < w * h" by (simp add: mult.commute)
  show "(y * w + x) mod w = x" using assms by simp
  show "(y * w + x) div w = y" using assms by simp
qed

lemma dilate_dims [simp]:
  "width (dilate m radius) = width m" "height (dilate m radius) = height m"
  by (simp_all add: dilate_def Let_def blank_def)

lemma erode_dims [simp]:
  "width (erode m radius) = width m" "height (erode m radius) = height m"
  by (simp_all add: erode_def Let_def blank_def)

lemma dilate_data:
  "data (dilate m radius) =
     fold (\<lambda>(x, y) d. put_gray ((y * width m + x) * 4)
             (fold (morph_step max m radius x y) (offsets \<lceil>radius\<rceil>) 0) d)
       (coords (width m) (height m)) (replicate (4 * width m * height m) 0)"
  by (simp add: dilate_def Let_def blank_def)

lemma erode_data:
  "data (erode m radius) =
     fold (\<lambda>(x, y) d. put_gray ((y * width m + x) * 4)
             (fold (morph_step min m radius x y) (offsets \<lceil>radius\<rceil>) 255) d)
       (coords (width m) (height m)) (replicate (4 * width m * height m) 0)"
  by (simp add: erode_def Let_def blank_def)

lemma length_dilate [simp]: "length (data (dilate m radius)) = 4 * width m * height m"
  by (simp only: dilate_data length_gray_loop length_replicate)

lemma length_erode [simp]: "length (data (erode m radius)) = 4 * width m * height m"
  by (simp only: erode_data length_gray_loop length_replicate)

lemma dilate_nth:
  assumes "j < 4 * width m * height m"
  shows "data (dilate m radius) ! j =
     (if j mod 4 = 3 then 255
      else clamp8 (fold (morph_step max m radius ((j div 4) mod width m) ((j div 4) div width m))
                     (offsets \<lceil>radius\<rceil>) 0))"
proof -
  from assms have "j div 4 < width m * height m" by simp
  moreover from assms have "j < length (replicate (4 * width m * height m) (0::byte))" by simp
  ultimately show ?thesis
    by (simp only: dilate_data gray_loop_nth if_True)
qed

lemma erode_nth:
  assumes "j < 4 * width m * height m"
  shows "data (erode m radius) ! j =
     (if j mod 4 = 3 then 255
      else clamp8 (fold (morph_step min m radius ((j div 4) mod width m) ((j div 4) div width m))
                     (offsets \<lceil>radius\<rceil>) 255))"
proof -
  from assms have "j div 4 < width m * height m" by simp
  moreover from assms have "j < length (replicate (4 * width m * height m) (0::byte))" by simp
  ultimately show ?thesis
    by (simp only: erode_data gray_loop_nth if_True)
qed

lemma dilate_px:
  assumes "x < width m" "y < height m"
  shows "uint (data (dilate m radius) ! ((y * width m + x) * 4)) =
           fold (morph_step max m radius x y) (offsets \<lceil>radius\<rceil>) 0"
proof -
  note ix = px_index [OF assms]
  have "(y * width m + x) * 4 < 4 * width m * height m" using ix(1) by simp
  from dilate_nth [OF this, of radius] ix
  have "data (dilate m radius) ! ((y * width m + x) * 4) =
          clamp8 (fold (morph_step max m radius x y) (offsets \<lceil>radius\<rceil>) 0)"
    by simp
  then show ?thesis
    using fold_max_range [of 0 m radius x y "offsets \<lceil>radius\<rceil>"] by (simp add: uint_clamp8)
qed

lemma erode_px:
  assumes "x < width m" "y < height m"
  shows "uint (data (erode m radius) ! ((y * width m + x) * 4)) =
           fold (morph_step min m radius x y) (offsets \<lceil>radius\<rceil>) 255"
proof -
  note ix = px_index [OF assms]
  have "(y * width m + x) * 4 < 4 * width m * height m" using ix(1) by simp
  from erode_nth [OF this, of radius] ix
  have "data (erode m radius) ! ((y * width m + x) * 4) =
          clamp8 (fold (morph_step min m radius x y) (offsets \<lceil>radius\<rceil>) 255)"
    by simp
  then show ?thesis
    using fold_min_range [of 255 m radius x y "offsets \<lceil>radius\<rceil>"] by (simp add: uint_clamp8)
qed

text \<open>
  Claim C6: for every well-formed mask, every radius and every pixel \<open>(x, y)\<close> of the
  mask, the strength (the R byte) after \<open>erode (dilate m radius) radius\<close> is at least the
  strength in \<open>m\<close>.  Neighbours outside the buffer are skipped by both passes.
\<close>

theorem closing_extensive:
  assumes "wf_image m" "x < width m" "y < height m"
  shows "uint (data m ! ((y * width m + x) * 4))
           \<le> uint (data (erode (dilate m radius) radius) ! ((y * width m + x) * 4))"
proof -
  let ?w = "width m" and ?D = "dilate m radius"
  let ?v = "uint (data m ! ((y * ?w + x) * 4))"
  have "?v \<le> fold (morph_step min ?D radius x y) (offsets \<lceil>radius\<rceil>) 255"
  proof (rule fold_min_ge)
    show "?v \<le> 255" by (rule uint_byte_le)
  next
    fix dx dy
    assume mem: "(dx, dy) \<in> set (offsets \<lceil>radius\<rceil>)"
      and disc: "\<not> real_of_int (dx * dx + dy * dy) > radius * radius"
      and b: "0 \<le> int x + dx" "int x + dx < int (width ?D)"
             "0 \<le> int y + dy" "int y + dy < int (height ?D)"
    define nx ny where "nx = nat (int x + dx)" and "ny = nat (int y + dy)"
    have n: "nx < ?w" "ny < height m" "int nx = int x + dx" "int ny = int y + dy"
      using b by (simp_all add: nx_def ny_def)
    have idx: "nat ((int y + dy) * int (width ?D) + (int x + dx)) = ny * ?w + nx"
      using n by (simp add: nat_eq_iff)
    have rev_idx: "nat ((int ny + - dy) * int ?w + (int nx + - dx)) = y * ?w + x"
      using n by (simp add: nat_eq_iff)
    have m1: "(- dx, - dy) \<in> set (offsets \<lceil>radius\<rceil>)"
      using mem by (simp add: offsets_iff)
    have m2: "\<not> real_of_int (- dx * - dx + - dy * - dy) > radius * radius"
      using disc by simp
    have m3: "0 \<le> int nx + - dx" "int nx + - dx < int ?w"
      "0 \<le> int ny + - dy" "int ny + - dy < int (height m)"
      using n assms(2,3) by simp_all
    have "uint (data m ! (nat ((int ny + - dy) * int ?w + (int nx + - dx)) * 4))
            \<le> fold (morph_step max m radius nx ny) (offsets \<lceil>radius\<rceil>) 0"
      by (rule fold_max_ge_mem [OF m1 m2 m3])
    then have "?v \<le> fold (morph_step max m radius nx ny) (offsets \<lceil>radius\<rceil>) 0"
      by (simp only: rev_idx)
    then show "?v \<le> uint (data ?D ! (nat ((int y + dy) * int (width ?D) + (int x + dx)) * 4))"
      by (simp only: idx dilate_px [OF n(1,2)])
  qed
  moreover have "uint (data (erode ?D radius) ! ((y * ?w + x) * 4)) =
      fold (morph_step min ?D radius x y) (offsets \<lceil>radius\<rceil>) 255"
    using erode_px [of x ?D y radius] assms(2,3) by (simp only: dilate_dims)
  ultimately show ?thesis by (simp only:)
qed


theorem closing_extensive_witness:
  "wf_image \<lparr>width = 2, height = 1, data = [255, 255, 255, 255, 0, 0, 0, 0]\<rparr> \<and>
   (0::nat) < 2 \<and> (1::nat) < 2 \<and> (0::nat) < 1 \<and>
   uint ([255, 255, 255, 255, 0, 0, 0, 0 :: byte] ! 0)
     \<le> uint (data (erode (dilate \<lparr>width = 2, height = 1,
                   data = [255, 255, 255, 255, 0, 0, 0, 0]\<rparr> 1) 1) ! 0) \<and>
   uint ([255, 255, 255, 255, 0, 0, 0, 0 :: byte] ! 4)
     \<le> uint (data (erode (dilate \<lparr>width = 2, height = 1,
                   data = [255, 255, 255, 255, 0, 0, 0, 0]\<rparr> 1) 1) ! 4)"
proof -
  let ?m = "\<lparr>width = 2, height = 1, data = [255, 255, 255, 255, 0, 0, 0, 0 :: byte]\<rparr>"
  have wf: "wf_image ?m" by (simp add: wf_image_def)
  have x0: "0 < width ?m" and x1: "1 < width ?m" and y: "0 < height ?m" by simp_all
  from closing_extensive [OF wf x0 y, of 1] closing_extensive [OF wf x1 y, of 1] wf
  show ?thesis by simp
qed

subsection \<open>selectColorRange\<close>

lemma colorRange_value_fuzziness_zero:
  assumes "fuzziness options = 0"
  shows "toUint8Clamp (colorRange_value options r g b) = 0"
proof -
  define dist where "dist = sqrt ((real_of_int (uint r) - rgba_r (targetColor options)) *
        (real_of_int (uint r) - rgba_r (targetColor options)) +
      (real_of_int (uint g) - rgba_g (targetColor options)) *
        (real_of_int (uint g) - rgba_g (targetColor options)) +
      (real_of_int (uint b) - rgba_b (targetColor options)) *
        (real_of_int (uint b) - rgba_b (targetColor options)))"
  have nonneg: "0 \<le> dist" unfolding dist_def by simp
  have v: "colorRange_value options r g b = round_times_255 (max0 (one_minus (js_div dist 0)))"
    using assms by (simp add: colorRange_value_def Let_def dist_def)
  show ?thesis
  proof (cases "dist = 0")
    case True
    then show ?thesis by (simp add: v js_div_def)
  next
    case False
    with nonneg have "0 < dist" by simp
    then show ?thesis by (simp add: v js_div_def)
  qed
qed

lemma length_colorRange_body: "length (colorRange_body options src i d) = length d"
  by (simp add: colorRange_body_def Let_def)

lemma colorRange_body_nth:
  assumes "j < length d"
  shows "colorRange_body options src (4 * m) d ! j =
     (if j div 4 = m
      then toUint8Clamp (colorRange_value options (src ! (4 * m)) (src ! (4 * m + 1)) (src ! (4 * m + 2)))
      else d ! j)"
proof (cases "j div 4 = m")
  case True
  have "colorRange_body options src (4 * m) d ! j =
      toUint8Clamp (colorRange_value options (src ! (4 * m)) (src ! (4 * m + 1)) (src ! (4 * m + 2)))"
    using True assms by (cases rule: stride_cases) (simp_all add: colorRange_body_def Let_def)
  with True show ?thesis by simp
next
  case False
  from stride_other [OF this] False show ?thesis
    by (simp add: colorRange_body_def Let_def)
qed

lemma selectColorRange_data:
  "data (mask (selectColorRange imageData options)) =
     fold (colorRange_body options (data imageData)) (stride4 (length (data imageData)))
       (replicate (4 * width imageData * height imageData) 0)"
  by (simp add: selectColorRange_def Let_def blank_def)

lemma selectColorRange_nth:
  assumes "wf_image imageData" "j < length (data imageData)"
  shows "data (mask (selectColorRange imageData options)) ! j =
     toUint8Clamp (colorRange_value options (data imageData ! (4 * (j div 4)))
        (data imageData ! (4 * (j div 4) + 1)) (data imageData ! (4 * (j div 4) + 2)))"
proof -
  let ?d0 = "replicate (4 * width imageData * height imageData) (0::byte)"
  have j: "j < length ?d0" and n: "length ?d0 \<le> length (data imageData)"
    using assms by (simp_all add: wf_image_def)
  show ?thesis
    unfolding selectColorRange_data
    by (rule stride4_loop_nth [of "colorRange_body options (data imageData)"
        "\<lambda>m c v. toUint8Clamp (colorRange_value options (data imageData ! (4 * m))
        (data imageData ! (4 * m + 1)) (data imageData ! (4 * m + 2)))",
        OF length_colorRange_body colorRange_body_nth j n])
qed

text \<open>
  With a positive fuzziness a pixel of exactly the target colour gets the full strength.
\<close>

lemma colorRange_value_exact_match:
  assumes "0 < fuzziness options"
    and "rgba_r (targetColor options) = real_of_int (uint r)"
    and "rgba_g (targetColor options) = real_of_int (uint g)"
    and "rgba_b (targetColor options) = real_of_int (uint b)"
  shows "toUint8Clamp (colorRange_value options r g b) = 255"
  using assms by (simp add: colorRange_value_def Let_def js_div_def)

text \<open>
  Claim C1 on the code: with \<open>fuzziness = 0\<close> every byte of the mask is 0, also for the
  pixels whose distance to the target colour is 0.  For them \<open>0 / 0\<close> is \<open>NaN\<close>, which
  \<open>Math.max\<close> and \<open>Math.round\<close> propagate and the array stores as 0; the claim's strength
  255 for exact matches is never written.
\<close>

theorem selectColorRange_fuzziness_zero:
  assumes "fuzziness options = 0" "wf_image imageData" "j < length (data imageData)"
  shows "data (mask (selectColorRange imageData options)) ! j = 0"
  using assms by (simp add: selectColorRange_nth colorRange_value_fuzziness_zero)


theorem selectColorRange_fuzziness_zero_witness:
  "fuzziness \<lparr>targetColor = \<lparr>rgba_r = 10, rgba_g = 20, rgba_b = 30, rgba_a = 1\<rparr>,
               fuzziness = 0\<rparr> = 0 \<and>
   wf_image \<lparr>width = 1, height = 1, data = [10, 20, 30, 255]\<rparr> \<and>
   0 < length (data \<lparr>width = 1, height = 1, data = [10, 20, 30, 255 :: byte]\<rparr>) \<and>
   data (mask (selectColorRange \<lparr>width = 1, height = 1, data = [10, 20, 30, 255]\<rparr>
     \<lparr>targetColor = \<lparr>rgba_r = 10, rgba_g = 20, rgba_b = 30, rgba_a = 1\<rparr>,
      fuzziness = 0\<rparr>)) ! 0 = 0"
proof -
  let ?o = "\<lparr>targetColor = \<lparr>rgba_r = 10, rgba_g = 20, rgba_b = 30, rgba_a = 1\<rparr>,
             fuzziness = 0\<rparr>"
  let ?i = "\<lparr>width = 1, height = 1, data = [10, 20, 30, 255 :: byte]\<rparr>"
  have f: "fuzziness ?o = 0" by simp
  have wf: "wf_image ?i" by (simp add: wf_image_def)
  have j: "0 < length (data ?i)" by simp
  from selectColorRange_fuzziness_zero [OF f wf j] f wf j show ?thesis by blast
qed

subsection \<open>Radii that are not positive\<close>

lemma offsets_neg: "r < 0 \<Longrightarrow> offsets r = []"
  by (simp add: offsets_def)

lemma offsets_0: "offsets 0 = [(0, 0)]"
  by (simp add: offsets_def)

lemma ceiling_le_minus_one: "radius \<le> - 1 \<Longrightarrow> \<lceil>radius :: real\<rceil> < 0"
  by (simp add: ceiling_less_iff)

lemma ceiling_small: "- 1 < radius \<Longrightarrow> radius \<le> 0 \<Longrightarrow> \<lceil>radius :: real\<rceil> = 0"
  by (simp add: ceiling_eq_iff)

lemma morph_step_origin:
  assumes "x < width m" "y < height m"
  shows "morph_step f m radius x y (0, 0) acc = f acc (uint (data m ! ((y * width m + x) * 4)))"
proof -
  have "nat (int y * int (width m) + int x) = y * width m + x"
    by (simp add: nat_eq_iff)
  moreover have "\<not> radius * radius < 0" by simp
  ultimately show ?thesis using assms
    by (simp add: morph_step_def Let_def)
qed

lemma morph_step_small:
  "morph_step f m radius x y (0, 0) =
     (\<lambda>acc. if x < width m \<and> y < height m
            then f acc (uint (data m ! (nat (int y * int (width m) + int x) * 4))) else acc)"
  by (auto simp: morph_step_def Let_def fun_eq_iff)

lemma dilate_small_radius:
  assumes "- 1 < radius" "radius \<le> 0"
  shows "dilate m radius = dilate m 0"
  using ceiling_small [OF assms]
  by (simp add: dilate_def Let_def offsets_0 morph_step_small)

lemma erode_small_radius:
  assumes "- 1 < radius" "radius \<le> 0"
  shows "erode m radius = erode m 0"
  using ceiling_small [OF assms]
  by (simp add: erode_def Let_def offsets_0 morph_step_small)

lemma dilate_negative_nth:
  assumes "radius \<le> - 1" "j < 4 * width m * height m"
  shows "data (dilate m radius) ! j = (if j mod 4 = 3 then 255 else 0)"
  using ceiling_le_minus_one [OF assms(1)] assms(2)
  by (simp add: dilate_nth offsets_neg clamp8_def)

lemma erode_negative_nth:
  assumes "radius \<le> - 1" "j < 4 * width m * height m"
  shows "data (erode m radius) ! j = 255"
  using ceiling_le_minus_one [OF assms(1)] assms(2)
  by (simp add: erode_nth offsets_neg clamp8_def)

lemma dilate_zero_nth:
  assumes "j < 4 * width m * height m"
  shows "data (dilate m 0) ! j = (if j mod 4 = 3 then 255 else data m ! (4 * (j div 4)))"
proof -
  let ?p = "j div 4" and ?w = "width m"
  from assms have p: "?p < ?w * height m" by simp
  then have w: "0 < ?w" by (cases "?w") simp_all
  have x: "?p mod ?w < ?w" using w by simp
  have y: "?p div ?w < height m" using p w by (simp add: div_less_iff_less_mult mult.commute)
  have idx: "(?p div ?w * ?w + ?p mod ?w) * 4 = 4 * ?p" by simp
  have "fold (morph_step max m 0 (?p mod ?w) (?p div ?w)) (offsets \<lceil>0::real\<rceil>) 0
          = max 0 (uint (data m ! (4 * ?p)))"
    by (simp only: ceiling_zero offsets_0 fold_simps morph_step_origin [OF x y] idx id_apply comp_apply)
  also have "\<dots> = uint (data m ! (4 * ?p))" by simp
  finally have "clamp8 (fold (morph_step max m 0 (?p mod ?w) (?p div ?w)) (offsets \<lceil>0::real\<rceil>) 0)
          = data m ! (4 * ?p)"
    using uint_byte_le [of "data m ! (4 * ?p)"] by (simp add: clamp8_def)
  then show ?thesis by (simp only: dilate_nth [OF assms])
qed

lemma erode_zero_nth:
  assumes "j < 4 * width m * height m"
  shows "data (erode m 0) ! j = (if j mod 4 = 3 then 255 else data m ! (4 * (j div 4)))"
proof -
  let ?p = "j div 4" and ?w = "width m"
  from assms have p: "?p < ?w * height m" by simp
  then have w: "0 < ?w" by (cases "?w") simp_all
  have x: "?p mod ?w < ?w" using w by simp
  have y: "?p div ?w < height m" using p w by (simp add: div_less_iff_less_mult mult.commute)
  have idx: "(?p div ?w * ?w + ?p mod ?w) * 4 = 4 * ?p" by simp
  have "fold (morph_step min m 0 (?p mod ?w) (?p div ?w)) (offsets \<lceil>0::real\<rceil>) 255
          = min 255 (uint (data m ! (4 * ?p)))"
    by (simp only: ceiling_zero offsets_0 fold_simps morph_step_origin [OF x y] idx id_apply comp_apply)
  also have "\<dots> = uint (data m ! (4 * ?p))"
    using uint_byte_le [of "data m ! (4 * ?p)"] by simp
  finally have "clamp8 (fold (morph_step min m 0 (?p mod ?w) (?p div ?w)) (offsets \<lceil>0::real\<rceil>) 255)
          = data m ! (4 * ?p)"
    using uint_byte_le [of "data m ! (4 * ?p)"] by (simp add: clamp8_def)
  then show ?thesis by (simp only: erode_nth [OF assms])
qed

text \<open>
  Claim C4 as the code has it.  No operation clamps a radius, and none of
  \<open>growSelection\<close>, \<open>shrinkSelection\<close> and \<open>featherSelection\<close> can throw.  With a radius
  of at most \<open>-1\<close> the neighbourhood loops do not run: \<open>growSelection\<close> returns strength
  0 and \<open>shrinkSelection\<close> strength 255 at every pixel (alpha 255).  With a radius
  between \<open>-1\<close> and 0 both behave as with radius 0, with which both copy the strength
  of each pixel.  \<open>featherSelection\<close> with a negative radius returns the mask it was given, as
  it does with radius 0.
\<close>

theorem negative_radius_not_clamped:
  assumes "radius < 0"
  shows "(radius \<le> - 1 \<longrightarrow>
           (\<forall>j < 4 * width (mask sel) * height (mask sel).
              data (mask (growSelection sel radius)) ! j = (if j mod 4 = 3 then 255 else 0) \<and>
              data (mask (shrinkSelection sel radius)) ! j = 255)) \<and>
         (- 1 < radius \<longrightarrow>
            growSelection sel radius = growSelection sel 0 \<and>
            shrinkSelection sel radius = shrinkSelection sel 0) \<and>
         (\<forall>j < 4 * width (mask sel) * height (mask sel).
            data (mask (growSelection sel 0)) ! j =
              (if j mod 4 = 3 then 255 else data (mask sel) ! (4 * (j div 4)))) \<and>
         (\<forall>j < 4 * width (mask sel) * height (mask sel).
            data (mask (shrinkSelection sel 0)) ! j =
              (if j mod 4 = 3 then 255 else data (mask sel) ! (4 * (j div 4)))) \<and>
         featherSelection conv sel radius = featherSelection conv sel 0 \<and>
         mask (featherSelection conv sel radius) = mask sel"
proof (intro conjI impI allI)
  fix j
  assume "radius \<le> - 1" "j < 4 * width (mask sel) * height (mask sel)"
  then show "data (mask (growSelection sel radius)) ! j = (if j mod 4 = 3 then 255 else 0)"
    by (simp add: growSelection_def Let_def dilate_negative_nth)
next
  fix j
  assume "radius \<le> - 1" "j < 4 * width (mask sel) * height (mask sel)"
  then show "data (mask (shrinkSelection sel radius)) ! j = 255"
    by (simp add: shrinkSelection_def Let_def erode_negative_nth)
next
  assume "- 1 < radius"
  with assms show "growSelection sel radius = growSelection sel 0"
    by (simp add: growSelection_def dilate_small_radius [of radius])
next
  assume "- 1 < radius"
  with assms show "shrinkSelection sel radius = shrinkSelection sel 0"
    by (simp add: shrinkSelection_def erode_small_radius [of radius])
next
  fix j
  assume "j < 4 * width (mask sel) * height (mask sel)"
  then show "data (mask (growSelection sel 0)) ! j =
              (if j mod 4 = 3 then 255 else data (mask sel) ! (4 * (j div 4)))"
    by (simp add: growSelection_def Let_def dilate_zero_nth)
next
  fix j
  assume "j < 4 * width (mask sel) * height (mask sel)"
  then show "data (mask (shrinkSelection sel 0)) ! j =
              (if j mod 4 = 3 then 255 else data (mask sel) ! (4 * (j div 4)))"
    by (simp add: shrinkSelection_def Let_def erode_zero_nth)
next
  from assms show "featherSelection conv sel radius = featherSelection conv sel 0"
    by (simp add: featherSelection_def gaussianBlur_def)
next
  from assms show "mask (featherSelection conv sel radius) = mask sel"
    by (simp add: featherSelection_def gaussianBlur_def Let_def)
qed

text \<open>
  Claim C4 as stated fails: grown by \<open>-1\<close>, a fully selected pixel becomes unselected,
  whereas the clamped radius 0 would keep it.
\<close>

theorem negative_radius_counterexample:
  "growSelection \<lparr>mask = \<lparr>width = 1, height = 1, data = [255, 255, 255, 255]\<rparr>,
      bounds = \<lparr>rect_x = 0, rect_y = 0, rect_width = 1, rect_height = 1\<rparr>, active = True\<rparr> (- 1)
   = \<lparr>mask = \<lparr>width = 1, height = 1, data = [0, 0, 0, 255]\<rparr>,
      bounds = \<lparr>rect_x = 0, rect_y = 0, rect_width = 0, rect_height = 0\<rparr>, active = True\<rparr>
   \<and>
   growSelection \<lparr>mask = \<lparr>width = 1, height = 1, data = [255, 255, 255, 255]\<rparr>,
      bounds = \<lparr>rect_x = 0, rect_y = 0, rect_width = 1, rect_height = 1\<rparr>, active = True\<rparr> 0
   = \<lparr>mask = \<lparr>width = 1, height = 1, data = [255, 255, 255, 255]\<rparr>,
      bounds = \<lparr>rect_x = 0, rect_y = 0, rect_width = 1, rect_height = 1\<rparr>, active = True\<rparr>"
  by code_simp

theorem negative_radius_witness:
  "(- 2 :: real) < 0 \<and> (- 2 :: real) \<le> - 1 \<and> (0::nat) < 4 * 1 * 1 \<and>
   data (mask (growSelection \<lparr>mask = \<lparr>width = 1, height = 1, data = [255, 255, 255, 255]\<rparr>,
      bounds = \<lparr>rect_x = 0, rect_y = 0, rect_width = 1, rect_height = 1\<rparr>, active = True\<rparr> (- 2))) ! 0 = 0 \<and>
   data (mask (shrinkSelection \<lparr>mask = \<lparr>width = 1, height = 1, data = [255, 255, 255, 255]\<rparr>,
      bounds = \<lparr>rect_x = 0, rect_y = 0, rect_width = 1, rect_height = 1\<rparr>, active = True\<rparr> (- 2))) ! 0 = 255"
proof -
  let ?s = "\<lparr>mask = \<lparr>width = 1, height = 1, data = [255, 255, 255, 255]\<rparr>,
      bounds = \<lparr>rect_x = 0, rect_y = 0, rect_width = 1, rect_height = 1\<rparr>, active = True\<rparr>"
  have h: "(- 2 :: real) < 0" by simp
  from negative_radius_not_clamped [OF h, of ?s]
  have "\<forall>j < 4 * width (mask ?s) * height (mask ?s).
              data (mask (growSelection ?s (- 2))) ! j = (if j mod 4 = 3 then 255 else 0) \<and>
              data (mask (shrinkSelection ?s (- 2))) ! j = 255"
    by simp
  from this [rule_format, of 0] show ?thesis by simp
qed

subsection \<open>applySelectionAsAlpha\<close>

lemma clamp8_min: "clamp8 (min (uint a) (uint b)) = min a (b :: byte)"
proof (cases "a \<le> b")
  case True
  then have "uint a \<le> uint b" by (simp add: word_le_def)
  with True show ?thesis using uint_byte_le [of a] by (simp add: clamp8_def min_def)
next
  case False
  then have "\<not> uint a \<le> uint b" by (simp add: word_le_def)
  with False show ?thesis using uint_byte_le [of b] by (simp add: clamp8_def min_def)
qed

lemma fold_applyAlpha_body:
  assumes "img \<noteq> msk"
  shows "fold (applyAlpha_body img msk) is st = st(img := fold (alpha_px (st msk)) is (st img))"
proof (induction "is" arbitrary: st)
  case Nil
  show ?case by simp
next
  case (Cons i "is")
  have step: "applyAlpha_body img msk i st = st(img := alpha_px (st msk) i (st img))"
    by (simp add: applyAlpha_body_def alpha_px_def)
  show ?case using assms by (auto simp: step Cons.IH fun_eq_iff)
qed

lemma length_alpha_px: "length (alpha_px M i d) = length d"
  by (simp add: alpha_px_def)

lemma alpha_px_nth:
  assumes "j < length d"
  shows "alpha_px M (4 * m) d ! j =
     (if j div 4 = m
      then (if j mod 4 = 3
            then (if 4 * m < length M then min (d ! j) (M ! (4 * m)) else 0)
            else d ! j)
      else d ! j)"
proof (cases "j div 4 = m")
  case True
  have "alpha_px M (4 * m) d ! j =
      (if j mod 4 = 3 then (if 4 * m < length M then min (d ! j) (M ! (4 * m)) else 0) else d ! j)"
    using True assms
    by (cases rule: stride_cases) (simp_all add: alpha_px_def rd_def clamp8_min)
  with True show ?thesis by simp
next
  case False
  from stride_other [OF this] False show ?thesis
    by (simp add: alpha_px_def)
qed

text \<open>
  When the mask is the image buffer itself, the loop reads the strength of a pixel from
  the buffer it is writing.  It writes alpha bytes only, and the strength is the R byte,
  so each read still returns the byte the buffer had at the start.
\<close>

lemma fold_applyAlpha_body_alias:
  "fold (applyAlpha_body img img) is st = st(img := fold (\<lambda>i d. alpha_px d i d) is (st img))"
proof (induction "is" arbitrary: st)
  case Nil
  show ?case by simp
next
  case (Cons i "is")
  have step: "applyAlpha_body img img i st = st(img := alpha_px (st img) i (st img))"
    by (simp add: applyAlpha_body_def alpha_px_def)
  show ?case by (auto simp: step Cons.IH fun_eq_iff)
qed

lemma alpha_px_alias:
  assumes "length d = length M" and "\<forall>k < length M. k mod 4 \<noteq> 3 \<longrightarrow> d ! k = M ! k"
  shows "alpha_px d (4 * m) d = alpha_px M (4 * m) d"
proof -
  have "d ! (4 * m) = M ! (4 * m)" if "4 * m < length M"
    using assms(2) [rule_format, OF that] by simp
  then have "rd d (4 * m) = rd M (4 * m)"
    using assms(1) by (simp add: rd_def)
  then show ?thesis by (simp add: alpha_px_def)
qed

lemma alpha_px_keeps_rgb:
  assumes "length d = length M" and "\<forall>k < length M. k mod 4 \<noteq> 3 \<longrightarrow> d ! k = M ! k"
  shows "length (alpha_px M (4 * m) d) = length M \<and>
         (\<forall>k < length M. k mod 4 \<noteq> 3 \<longrightarrow> alpha_px M (4 * m) d ! k = M ! k)"
proof -
  have "alpha_px M (4 * m) d ! k = d ! k" if "k mod 4 \<noteq> 3" for k
  proof -
    from that have "k \<noteq> 4 * m + 3" by presburger
    then show ?thesis by (simp add: alpha_px_def)
  qed
  with assms show ?thesis by (simp add: length_alpha_px)
qed

lemma fold_alpha_px_alias:
  assumes "length d = length M" and "\<forall>k < length M. k mod 4 \<noteq> 3 \<longrightarrow> d ! k = M ! k"
  shows "fold (\<lambda>i d. alpha_px d i d) (map (\<lambda>k. 4 * k) ns) d =
         fold (alpha_px M) (map (\<lambda>k. 4 * k) ns) d"
  using assms
proof (induction ns arbitrary: d)
  case Nil
  show ?case by simp
next
  case (Cons m ns)
  note keep = alpha_px_keeps_rgb [OF Cons.prems, of m]
  have "fold (\<lambda>i d. alpha_px d i d) (map (\<lambda>k. 4 * k) (m # ns)) d =
        fold (\<lambda>i d. alpha_px d i d) (map (\<lambda>k. 4 * k) ns) (alpha_px M (4 * m) d)"
    by (simp add: alpha_px_alias [OF Cons.prems])
  also have "\<dots> = fold (alpha_px M) (map (\<lambda>k. 4 * k) ns) (alpha_px M (4 * m) d)"
    using keep by (intro Cons.IH) simp_all
  finally show ?case by simp
qed

text \<open>
  The effect of \<open>applySelectionAsAlpha\<close> on the store, whether or not the mask is the
  image buffer: the image buffer is replaced by the result of the loop run against the
  mask as it was at the start.
\<close>

lemma applySelectionAsAlpha_image:
  "applySelectionAsAlpha st img msk =
     st(img := fold (alpha_px (st msk)) (stride4 (length (st img))) (st img))"
proof (cases "img = msk")
  case False
  then show ?thesis
    unfolding applySelectionAsAlpha_def by (rule fold_applyAlpha_body)
next
  case True
  have "fold (\<lambda>i d. alpha_px d i d) (stride4 (length (st img))) (st img) =
        fold (alpha_px (st img)) (stride4 (length (st img))) (st img)"
    unfolding stride4_def by (rule fold_alpha_px_alias) simp_all
  then show ?thesis
    unfolding applySelectionAsAlpha_def True fold_applyAlpha_body_alias by simp
qed

text \<open>
  Claim C9 as the code has it.  \<open>applySelectionAsAlpha\<close> leaves every buffer other than
  the image buffer unchanged, keeps the length of the image buffer and its R, G and B
  bytes, and sets each alpha byte to the minimum of the old alpha and the mask strength
  (the R byte of the mask) of that pixel, or to 0 for a pixel beyond the end of the mask
  buffer; all this holds also when the selection's mask is the image buffer itself.  The
  mask buffer of the selection is left unchanged when it is not the image buffer.
\<close>

theorem applySelectionAsAlpha_frame:
  "(img \<noteq> msk \<longrightarrow> applySelectionAsAlpha st img msk msk = st msk) \<and>
   (\<forall>r. r \<noteq> img \<longrightarrow> applySelectionAsAlpha st img msk r = st r) \<and>
   length (applySelectionAsAlpha st img msk img) = length (st img) \<and>
   (\<forall>j < length (st img).
      applySelectionAsAlpha st img msk img ! j =
        (if j mod 4 = 3
         then (if j - 3 < length (st msk) then min (st img ! j) (st msk ! (j - 3)) else 0)
         else st img ! j))"
proof -
  let ?d = "fold (alpha_px (st msk)) (stride4 (length (st img))) (st img)"
  have eq: "applySelectionAsAlpha st img msk = st(img := ?d)"
    by (rule applySelectionAsAlpha_image)
  have len: "length ?d = length (st img)"
    by (rule length_fold_stride) (rule length_alpha_px)
  have nth: "?d ! j = (if j mod 4 = 3
               then (if j - 3 < length (st msk) then min (st img ! j) (st msk ! (j - 3)) else 0)
               else st img ! j)" if j: "j < length (st img)" for j
  proof -
    have "?d ! j = (\<lambda>m c v. if c = 3
            then (if 4 * m < length (st msk) then min v (st msk ! (4 * m)) else 0) else v)
          (j div 4) (j mod 4) (st img ! j)"
      by (rule stride4_loop_nth [OF length_alpha_px _ j order_refl]) (simp add: alpha_px_nth)
    moreover have "4 * (j div 4) = j - 3" if "j mod 4 = 3"
      using that by presburger
    ultimately show ?thesis by simp
  qed
  show ?thesis using len nth by (simp add: eq)
qed

text \<open>
  Claim C9 as stated fails when the caller passes the selection's own mask as the image:
  the mask \<open>(10, 10, 10, 255)\<close> of the selection becomes \<open>(10, 10, 10, 10)\<close>.
\<close>

theorem applySelectionAsAlpha_alias_counterexample:
  "applySelectionAsAlpha ((\<lambda>_. [])(0 := [10, 10, 10, 255])) 0 0 0 = [10, 10, 10, 10] \<and>
   ((\<lambda>_. [])(0 := [10, 10, 10, 255 :: byte])) (0 :: ref) \<noteq> [10, 10, 10, 10]"
  by code_simp

text \<open>
  The theorem of claim C9 on an image \<open>(9, 8, 7, 200)\<close> and a separate mask of strength
  50, and on the buffer \<open>(10, 10, 10, 255)\<close> passed as both image and mask.
\<close>

theorem applySelectionAsAlpha_witness:
  "(0::ref) \<noteq> 1 \<and>
   applySelectionAsAlpha ((\<lambda>_. [])(0 := [9, 8, 7, 200], 1 := [50, 50, 50, 255])) 0 1 1
     = [50, 50, 50, 255] \<and>
   applySelectionAsAlpha ((\<lambda>_. [])(0 := [9, 8, 7, 200], 1 := [50, 50, 50, 255])) 0 1 0 ! 0 = 9 \<and>
   applySelectionAsAlpha ((\<lambda>_. [])(0 := [9, 8, 7, 200], 1 := [50, 50, 50, 255])) 0 1 0 ! 3 = 50 \<and>
   applySelectionAsAlpha ((\<lambda>_. [])(0 := [10, 10, 10, 255])) 0 0 0 ! 2 = 10 \<and>
   applySelectionAsAlpha ((\<lambda>_. [])(0 := [10, 10, 10, 255])) 0 0 0 ! 3 = 10"
proof -
  let ?st = "((\<lambda>_. [])(0 := [9, 8, 7, 200 :: byte], 1 := [50, 50, 50, 255])) :: store"
  let ?al = "((\<lambda>_. [])(0 := [10, 10, 10, 255 :: byte])) :: store"
  have h: "(0::ref) \<noteq> 1" by simp
  have s0: "?st 0 = [9, 8, 7, 200]" and s1: "?st 1 = [50, 50, 50, 255]" by simp_all
  have a0: "?al 0 = [10, 10, 10, 255]" by simp
  have m: "min (200 :: byte) 50 = 50" "min (255 :: byte) 10 = 10" by (simp_all add: min_def)
  note t = applySelectionAsAlpha_frame [where img = 0 and msk = 1 and st = ?st]
  note u = applySelectionAsAlpha_frame [where img = 0 and msk = 0 and st = ?al]
  from t have "(0::ref) \<noteq> 1 \<longrightarrow> applySelectionAsAlpha ?st 0 1 1 = ?st 1" by (rule conjunct1)
  then have a: "applySelectionAsAlpha ?st 0 1 1 = ?st 1" using h by (rule mp)
  from t have n: "\<forall>j < length (?st 0).
            applySelectionAsAlpha ?st 0 1 0 ! j =
              (if j mod 4 = 3
               then (if j - 3 < length (?st 1) then min (?st 0 ! j) (?st 1 ! (j - 3)) else 0)
               else ?st 0 ! j)" by (rule conjunct2 [OF conjunct2 [OF conjunct2]])
  from u have k: "\<forall>j < length (?al 0).
            applySelectionAsAlpha ?al 0 0 0 ! j =
              (if j mod 4 = 3
               then (if j - 3 < length (?al 0) then min (?al 0 ! j) (?al 0 ! (j - 3)) else 0)
               else ?al 0 ! j)" by (rule conjunct2 [OF conjunct2 [OF conjunct2]])
  have n0: "applySelectionAsAlpha ?st 0 1 0 ! 0 = 9"
    using n [rule_format, of 0] unfolding s0 s1 by simp
  have n3: "applySelectionAsAlpha ?st 0 1 0 ! 3 = 50"
    using n [rule_format, of 3] unfolding s0 s1 by (simp add: m)
  have k2: "applySelectionAsAlpha ?al 0 0 0 ! 2 = 10"
    using k [rule_format, of 2] unfolding a0 by simp
  have k3: "applySelectionAsAlpha ?al 0 0 0 ! 3 = 10"
    using k [rule_format, of 3] unfolding a0 by (simp add: m)
  have a': "applySelectionAsAlpha ?st 0 1 1 = [50, 50, 50, 255]"
    using a s1 by (simp only:)
  show ?thesis by (rule conjI [OF h conjI [OF a' conjI [OF n0 conjI [OF n3 conjI [OF k2 k3]]]]])
qed

subsection \<open>quickSelect\<close>

lemma qs_step_cases:
  obtains (skip) "qs_step c e (queue, visited, d) = (queue, visited, d)"
  | (visit) pos queue' d' where "qs_step c e (queue, visited, d) = (queue', insert pos visited, d')"
      "pos < width (qs_image c) * height (qs_image c)" "pos \<notin> visited"
proof -
  obtain x y depth where e: "e = (x, y, depth)" by (cases e)
  let ?w = "width (qs_image c)" and ?h = "height (qs_image c)"
  show thesis
  proof (cases "\<lfloor>x\<rfloor> < 0 \<or> \<lfloor>x\<rfloor> \<ge> int ?w \<or> \<lfloor>y\<rfloor> < 0 \<or> \<lfloor>y\<rfloor> \<ge> int ?h")
    case True
    then have "qs_step c e (queue, visited, d) = (queue, visited, d)"
      by (simp add: qs_step_def e Let_def)
    then show thesis by (rule skip)
  next
    case False
    define ix iy where "ix = nat \<lfloor>x\<rfloor>" and "iy = nat \<lfloor>y\<rfloor>"
    from False have "\<not> \<lfloor>x\<rfloor> < 0" "\<not> \<lfloor>x\<rfloor> \<ge> int ?w" "\<not> \<lfloor>y\<rfloor> < 0" "\<not> \<lfloor>y\<rfloor> \<ge> int ?h"
      by blast+
    then have f: "0 \<le> \<lfloor>x\<rfloor>" "\<lfloor>x\<rfloor> < int ?w" "0 \<le> \<lfloor>y\<rfloor>" "\<lfloor>y\<rfloor> < int ?h"
      by (simp_all only: not_less not_le)
    then have b: "ix < ?w" "iy < ?h" "\<lfloor>x\<rfloor> = int ix" "\<lfloor>y\<rfloor> = int iy"
      unfolding ix_def iy_def by linarith+
    have pos: "nat (\<lfloor>y\<rfloor> * int ?w + \<lfloor>x\<rfloor>) = iy * ?w + ix"
      using b by (simp add: nat_eq_iff)
    have lt: "iy * ?w + ix < ?w * ?h" by (rule px_index(1) [OF b(1,2)])
    show thesis
    proof (cases "iy * ?w + ix \<in> visited")
      case True
      with False pos have "qs_step c e (queue, visited, d) = (queue, visited, d)"
        by (simp add: qs_step_def e Let_def)
      then show thesis by (rule skip)
    next
      case nv: False
      with False pos have "\<exists>queue' d'. qs_step c e (queue, visited, d) =
          (queue', insert (iy * ?w + ix) visited, d')"
        by (simp add: qs_step_def e Let_def)
      then show thesis using visit lt nv by blast
    qed
  qed
qed


termination qs_loop
proof (relation "measures [\<lambda>(c, queue, visited, d). unvisited c visited,
                           \<lambda>(c, queue, visited, d). length queue]")
  show "wf (measures [\<lambda>(c, queue, visited, d :: byte list). unvisited c visited,
                      \<lambda>(c, queue :: (real \<times> real \<times> nat) list, visited, d). length queue])"
    by simp
next
  fix c :: QuickSelectCall and e queue visited and d :: "byte list"
  show "((c, qs_step c e (queue, visited, d)), (c, e # queue, visited, d))
          \<in> measures [\<lambda>(c, queue, visited, d). unvisited c visited,
                      \<lambda>(c, queue, visited, d). length queue]"
  proof (cases rule: qs_step_cases [of c e queue visited d])
    case skip
    then show ?thesis by simp
  next
    case (visit pos queue' d')
    let ?A = "{0..<width (qs_image c) * height (qs_image c)} - visited"
    have "pos \<in> ?A" using visit(2,3) by simp
    then have "card (?A - {pos}) < card ?A" by (intro card_Diff1_less) simp_all
    moreover have "{0..<width (qs_image c) * height (qs_image c)} - insert pos visited = ?A - {pos}"
      by blast
    ultimately have "unvisited c (insert pos visited) < unvisited c visited"
      by (simp add: unvisited_def)
    with visit(1) show ?thesis by simp
  qed
qed

lemma qs_step_mask:
  "snd (snd (qs_step c e (queue, visited, d))) = d \<or>
   (\<exists>pos. snd (snd (qs_step c e (queue, visited, d))) = write_mask (qs_mode c) (pos * 4) d)"
  by (cases e) (auto simp: qs_step_def Let_def)

lemma qs_loop_invariant:
  assumes step: "\<And>pos d. I d \<Longrightarrow> I (write_mask (qs_mode c) (pos * 4) d)"
    and init: "I (snd (snd s))"
  shows "I (qs_loop c s)"
  using assms
proof (induction c s rule: qs_loop.induct)
  case (1 c visited d)
  then show ?case by simp
next
  case (2 c e queue visited d)
  have "I (snd (snd (qs_step c e (queue, visited, d))))"
    using qs_step_mask [of c e queue visited d] "2.prems" by auto
  with "2.prems"(1) have "I (qs_loop c (qs_step c e (queue, visited, d)))"
    by (intro "2.IH")
  then show ?case by simp
qed

lemma length_write_mask [simp]: "length (write_mask mode i d) = length d"
  by (simp add: write_mask_def)

lemma update4_nth:
  "j < length d \<Longrightarrow> d[i := a, i + 1 := b, i + 2 := c, i + 3 := e] ! j =
     (if j = i + 3 then e else if j = i + 2 then c else if j = i + 1 then b
      else if j = i then a else d ! j)"
  by (simp add: nth_list_update)

lemma write_mask_nth_add:
  assumes "mode = New \<or> mode = Add" "j < length d"
  shows "write_mask mode i d ! j = d ! j \<or> write_mask mode i d ! j = 255"
proof -
  from assms(1) have "write_mask mode i d = d[i := 255, i + 1 := 255, i + 2 := 255, i + 3 := 255]"
    by (auto simp: write_mask_def)
  then show ?thesis using update4_nth [OF assms(2), of i 255 255 255 255]
    by (simp only:) (simp split: if_splits)
qed

lemma byte_le_255: "(b :: byte) \<le> 255"
  using uint_byte_le [of b] by (simp add: word_le_def)

lemma qs_loop_never_deselects:
  assumes "qs_mode c = New \<or> qs_mode c = Add"
  shows "length (qs_loop c (queue, visited, d)) = length d \<and>
         (\<forall>j < length d. qs_loop c (queue, visited, d) ! j = d ! j \<or>
                          qs_loop c (queue, visited, d) ! j = 255)"
proof -
  define I where "I = (\<lambda>d'. length d' = length d \<and> (\<forall>j < length d. d' ! j = d ! j \<or> d' ! j = 255))"
  have "I (qs_loop c (queue, visited, d))"
  proof (rule qs_loop_invariant)
    show "I (snd (snd (queue, visited, d)))" by (simp add: I_def)
  next
    fix pos d' assume "I d'"
    then show "I (write_mask (qs_mode c) (pos * 4) d')"
      unfolding I_def using write_mask_nth_add [OF assms] by (metis length_write_mask)
  qed
  then show ?thesis by (simp add: I_def)
qed

text \<open>
  Claim C10: in mode \<open>new\<close> or \<open>add\<close>, on an image with at least one pixel and an
  existing selection whose mask buffer has the image's size, \<open>quickSelect\<close> returns a
  selection in which every byte of the mask is either the byte of the existing mask or
  255, hence never below the existing one.
\<close>

theorem quickSelect_never_deselects:
  assumes "mode = New \<or> mode = Add"
    and "0 < width imageData" "0 < height imageData"
    and "length (data (mask existing)) = 4 * width imageData * height imageData"
  shows "\<exists>sel. quickSelect fl edges imageData startX startY radius mode (Some existing) = Inr sel \<and>
           length (data (mask sel)) = length (data (mask existing)) \<and>
           (\<forall>j < length (data (mask existing)).
              data (mask existing) ! j \<le> data (mask sel) ! j \<and>
              (data (mask sel) ! j = data (mask existing) ! j \<or> data (mask sel) ! j = 255))"
proof -
  let ?w = "width imageData" and ?h = "height imageData" and ?d = "data (mask existing)"
  let ?c = "\<lparr>qs_fl = fl, qs_edges = edges, qs_image = imageData, qs_startX = startX,
                   qs_startY = startY, qs_radius = radius, qs_mode = mode\<rparr>"
  let ?md = "qs_loop ?c ([(startX, startY, 0)], {}, ?d)"
  have "0 < ?w * ?h" using assms(2,3) by simp
  then have ctor: "new_ImageData_from ?d ?w ?h = Inr \<lparr>width = ?w, height = ?h, data = ?d\<rparr>"
    using assms(2,4) by (simp add: new_ImageData_from_def mult.assoc)
  define sel where "sel = \<lparr>mask = \<lparr>width = ?w, height = ?h, data = ?md\<rparr>,
      bounds = computeBounds \<lparr>width = ?w, height = ?h, data = ?md\<rparr>, active = True\<rparr>"
  have q: "quickSelect fl edges imageData startX startY radius mode (Some existing) = Inr sel"
    by (simp add: quickSelect_def ctor Let_def sel_def)
  have m: "qs_mode ?c = New \<or> qs_mode ?c = Add" using assms(1) by simp
  note nd = qs_loop_never_deselects [OF m, of "[(startX, startY, 0)]" "{}" ?d]
  have "data (mask sel) = ?md" by (simp add: sel_def)
  with nd have len: "length (data (mask sel)) = length ?d"
    and nth: "\<forall>j < length ?d. data (mask sel) ! j = ?d ! j \<or> data (mask sel) ! j = 255"
    by simp_all
  have "?d ! j \<le> data (mask sel) ! j" if "j < length ?d" for j
    using nth [rule_format, OF that] byte_le_255 [of "?d ! j"] by auto
  with q len nth show ?thesis by blast
qed

text \<open>
  Claim C2 as the code has it.  For an entry that is inside the image and not yet
  visited, at any depth, the loop body leaves the mask as it is when the distance of the
  cell from the seed exceeds \<open>maxRadius\<close>, both as the code computes them in doubles;
  within the cap, the edge test and the colour test reject a cell only at a depth above
  1, and every other cell is written into the mask.  Hence a cell of depth 0 or 1 is
  accepted exactly when its distance is at most \<open>maxRadius\<close>, whatever its edge value
  and its colour.
\<close>

theorem qs_step_distance_cap:
  assumes "0 \<le> \<lfloor>x\<rfloor>" "\<lfloor>x\<rfloor> < int (width (qs_image c))"
    and "0 \<le> \<lfloor>y\<rfloor>" "\<lfloor>y\<rfloor> < int (height (qs_image c))"
    and "nat (\<lfloor>y\<rfloor> * int (width (qs_image c)) + \<lfloor>x\<rfloor>) \<notin> visited"
  shows "snd (snd (qs_step c (x, y, depth) (queue, visited, d))) =
           (if dist c x y > maxRadius c then d
            else if 1 < depth \<and>
                    (qs_edges c ! nat (\<lfloor>y\<rfloor> * int (width (qs_image c)) + \<lfloor>x\<rfloor>) > edgeThreshold c \<or>
                     color_far c (nat (\<lfloor>y\<rfloor> * int (width (qs_image c)) + \<lfloor>x\<rfloor>)))
            then d
            else write_mask (qs_mode c)
                   (nat (\<lfloor>y\<rfloor> * int (width (qs_image c)) + \<lfloor>x\<rfloor>) * 4) d) \<and>
         (depth \<le> 1 \<longrightarrow>
            (accepted c (x, y, depth) (nat (\<lfloor>y\<rfloor> * int (width (qs_image c)) + \<lfloor>x\<rfloor>)) \<longleftrightarrow>
               dist c x y \<le> maxRadius c))"
proof -
  let ?pos = "nat (\<lfloor>y\<rfloor> * int (width (qs_image c)) + \<lfloor>x\<rfloor>)"
  have a: "accepted c (x, y, depth) pos \<longleftrightarrow>
           \<not> (dist c x y > maxRadius c) \<and>
           \<not> (1 < depth \<and> (qs_edges c ! pos > edgeThreshold c \<or> color_far c pos))" for pos
    by (auto simp: accepted_def)
  have nb: "\<not> (\<lfloor>x\<rfloor> < 0 \<or> \<lfloor>x\<rfloor> \<ge> int (width (qs_image c)) \<or> \<lfloor>y\<rfloor> < 0 \<or>
                \<lfloor>y\<rfloor> \<ge> int (height (qs_image c)))"
    using assms(1-4) by linarith
  have "snd (snd (qs_step c (x, y, depth) (queue, visited, d))) =
           (if accepted c (x, y, depth) ?pos then write_mask (qs_mode c) (?pos * 4) d else d)"
    unfolding qs_step_def Let_def prod.case if_not_P [OF nb] if_not_P [OF assms(5)]
    by simp
  then have w: "snd (snd (qs_step c (x, y, depth) (queue, visited, d))) =
           (if dist c x y > maxRadius c then d
            else if 1 < depth \<and> (qs_edges c ! ?pos > edgeThreshold c \<or> color_far c ?pos) then d
            else write_mask (qs_mode c) (?pos * 4) d)"
    unfolding a by simp
  have "depth \<le> 1 \<longrightarrow> (accepted c (x, y, depth) ?pos \<longleftrightarrow> dist c x y \<le> maxRadius c)"
    unfolding a by auto
  with w show ?thesis by blast
qed

text \<open>
  The theorem at the right neighbour of the seed, of depth 1, for a radius just below one
  third: \<open>6004799503160661 / 2 ^ 54\<close> is the double nearest to one third, its exact triple
  \<open>1 - 1 / 2 ^ 54\<close> lies halfway between two doubles and rounds to 1, so \<open>maxRadius\<close> is 1
  and the neighbour, at distance 1, is written although its edge value and its colour
  would reject it at a greater depth.  Every other number of this step is a double, on
  which the rounding is the identity.
\<close>

theorem qs_step_distance_cap_witness:
  "(0::int) \<le> \<lfloor>1::real\<rfloor> \<and> \<lfloor>1::real\<rfloor> < int 2 \<and>
   (0::int) \<le> \<lfloor>0::real\<rfloor> \<and> \<lfloor>0::real\<rfloor> < int 1 \<and> (1::nat) \<notin> {0} \<and>
   snd (snd (qs_step
      \<lparr>qs_fl = (\<lambda>r. if r = 18014398509481983 / 18014398509481984 then 1 else r),
       qs_edges = [0, 1],
       qs_image = \<lparr>width = 2, height = 1, data = [9, 9, 9, 255, 200, 200, 200, 255]\<rparr>,
       qs_startX = 0, qs_startY = 0, qs_radius = 6004799503160661 / 18014398509481984,
       qs_mode = New\<rparr> (1, 0, 1)
      ([], {0}, [255, 255, 255, 255, 0, 0, 0, 0])))
     = [255, 255, 255, 255, 255, 255, 255, 255]"
proof -
  let ?c = "\<lparr>qs_fl = (\<lambda>r. if r = 18014398509481983 / 18014398509481984 then 1 else r),
       qs_edges = [0, 1],
       qs_image = \<lparr>width = 2, height = 1, data = [9, 9, 9, 255, 200, 200, 200, 255]\<rparr>,
       qs_startX = 0, qs_startY = 0, qs_radius = 6004799503160661 / 18014398509481984,
       qs_mode = New\<rparr>"
  have h: "0 \<le> \<lfloor>1::real\<rfloor>" "\<lfloor>1::real\<rfloor> < int (width (qs_image ?c))"
    "0 \<le> \<lfloor>0::real\<rfloor>" "\<lfloor>0::real\<rfloor> < int (height (qs_image ?c))"
    "nat (\<lfloor>0::real\<rfloor> * int (width (qs_image ?c)) + \<lfloor>1::real\<rfloor>) \<notin> {0}"
    by simp_all
  have m: "maxRadius ?c = 1" by (simp add: maxRadius_def)
  have e: "dist ?c 1 0 = 1" by (simp add: dist_def Let_def)
  from qs_step_distance_cap [OF h, of 1 "[]" "[255, 255, 255, 255, 0, 0, 0, 0]"]
  have "snd (snd (qs_step ?c (1, 0, 1) ([], {0}, [255, 255, 255, 255, 0, 0, 0, 0])))
     = [255, 255, 255, 255, 255, 255, 255, 255]"
    unfolding m e by (simp add: write_mask_def)
  then show ?thesis by simp
qed

text \<open>
  Claim C2 as stated fails for a brush radius below one third.  With radius \<open>1 / 8\<close> and
  the seed at the origin of an image of two equal pixels, every number of the run is a
  double, on which the rounding is the identity: \<open>maxRadius\<close> is \<open>0.375\<close>, the right
  neighbour of the seed is visited at depth 1 and rejected by the distance cap
  (\<open>1 > 0.375\<close>), and \<open>quickSelect\<close> leaves it unselected.
\<close>

theorem quickSelect_depth_1_counterexample:
  "\<not> accepted \<lparr>qs_fl = (\<lambda>r. r), qs_edges = [0, 0],
      qs_image = \<lparr>width = 2, height = 1, data = [9, 9, 9, 255, 9, 9, 9, 255]\<rparr>,
      qs_startX = 0, qs_startY = 0, qs_radius = 1 / 8, qs_mode = New\<rparr> (1, 0, 1) 1 \<and>
   quickSelect (\<lambda>r. r) [0, 0] \<lparr>width = 2, height = 1, data = [9, 9, 9, 255, 9, 9, 9, 255]\<rparr>
          0 0 (1 / 8) New None
        = Inr \<lparr>mask = \<lparr>width = 2, height = 1, data = [255, 255, 255, 255, 0, 0, 0, 0]\<rparr>,
               bounds = \<lparr>rect_x = 0, rect_y = 0, rect_width = 1, rect_height = 1\<rparr>,
               active = True\<rparr>"
proof -
  let ?i = "\<lparr>width = 2, height = 1, data = [9, 9, 9, 255, 9, 9, 9, 255 :: byte]\<rparr>"
  let ?c = "\<lparr>qs_fl = (\<lambda>r. r), qs_edges = [0, 0], qs_image = ?i,
      qs_startX = 0, qs_startY = 0, qs_radius = 1 / 8, qs_mode = New\<rparr>"
  have rejected: "\<not> accepted ?c (1, 0, 1) 1"
    by (simp add: accepted_def dist_def maxRadius_def)
  have start: "blank 2 1 = \<lparr>width = 2, height = 1, data = [0, 0, 0, 0, 0, 0, 0, 0]\<rparr>"
    by code_simp
  have loop: "qs_loop ?c ([(0, 0, 0)], {}, [0, 0, 0, 0, 0, 0, 0, 0])
                = [255, 255, 255, 255, 0, 0, 0, 0]"
    by (simp add: qs_step_def accepted_def dist_def maxRadius_def edgeThreshold_def
        write_mask_def Let_def)
  have box: "computeBounds \<lparr>width = 2, height = 1, data = [255, 255, 255, 255, 0, 0, 0, 0]\<rparr>
               = \<lparr>rect_x = 0, rect_y = 0, rect_width = 1, rect_height = 1\<rparr>"
    by code_simp
  have "quickSelect (\<lambda>r. r) [0, 0] ?i 0 0 (1 / 8) New None
        = Inr \<lparr>mask = \<lparr>width = 2, height = 1, data = [255, 255, 255, 255, 0, 0, 0, 0]\<rparr>,
               bounds = \<lparr>rect_x = 0, rect_y = 0, rect_width = 1, rect_height = 1\<rparr>,
               active = True\<rparr>"
    unfolding quickSelect_def option.case sum.case Let_def ImageData.simps start loop box
    by (rule refl)
  with rejected show ?thesis by (rule conjI)
qed

text \<open>
  The theorem of claim C10 applied to a one-pixel image and an existing selection.
\<close>

theorem quickSelect_never_deselects_witness:
  "(Add = New \<or> Add = Add) \<and>
   0 < width \<lparr>width = 1, height = 1, data = [9, 9, 9, 255 :: byte]\<rparr> \<and>
   0 < height \<lparr>width = 1, height = 1, data = [9, 9, 9, 255 :: byte]\<rparr> \<and>
   (\<exists>sel. quickSelect (\<lambda>r. r) [0] \<lparr>width = 1, height = 1, data = [9, 9, 9, 255]\<rparr> 0 0 1 Add
       (Some \<lparr>mask = \<lparr>width = 1, height = 1, data = [7, 7, 7, 255]\<rparr>,
              bounds = \<lparr>rect_x = 0, rect_y = 0, rect_width = 1, rect_height = 1\<rparr>,
              active = True\<rparr>) = Inr sel \<and>
      (7 :: byte) \<le> data (mask sel) ! 0)"
proof -
  let ?i = "\<lparr>width = 1, height = 1, data = [9, 9, 9, 255 :: byte]\<rparr>"
  let ?e = "\<lparr>mask = \<lparr>width = 1, height = 1, data = [7, 7, 7, 255 :: byte]\<rparr>,
              bounds = \<lparr>rect_x = 0, rect_y = 0, rect_width = 1, rect_height = 1\<rparr>,
              active = True\<rparr>"
  have h: "Add = New \<or> Add = Add" "0 < width ?i" "0 < height ?i"
    "length (data (mask ?e)) = 4 * width ?i * height ?i"
    by simp_all
  from quickSelect_never_deselects [OF h, of "\<lambda>r. r" "[0]" 0 0 1] obtain sel where
    q: "quickSelect (\<lambda>r. r) [0] ?i 0 0 1 Add (Some ?e) = Inr sel"
    and n: "\<forall>j < length (data (mask ?e)).
              data (mask ?e) ! j \<le> data (mask sel) ! j \<and>
              (data (mask sel) ! j = data (mask ?e) ! j \<or> data (mask sel) ! j = 255)"
    by blast
  from n [rule_format, of 0] have "(7 :: byte) \<le> data (mask sel) ! 0" by simp
  with q h show ?thesis by blast
qed

subsection \<open>selectSubject\<close>

lemma row_end_pred: "0 < pos mod w \<Longrightarrow> row_end w (pos - 1) \<le> row_end w pos"
proof -
  assume a: "0 < pos mod w"
  then have "0 < pos" by (cases pos) simp_all
  have "(pos - 1) div w \<le> pos div w" by (rule div_le_mono) simp
  then have "((pos - 1) div w + 1) * w \<le> (pos div w + 1) * w" by simp
  then show ?thesis unfolding row_end_def by (simp add: max.coboundedI2 max.coboundedI1)
qed

lemma row_end_succ: "int (pos mod w) < int w - 1 \<Longrightarrow> row_end w (pos + 1) \<le> row_end w pos"
proof -
  assume a: "int (pos mod w) < int w - 1"
  define q r where "q = pos div w" and "r = pos mod w"
  have split: "pos = w * q + r" by (simp add: q_def r_def)
  have w: "r + 2 \<le> w" using a unfolding r_def by linarith
  have lt: "pos + 2 \<le> w * Suc q" using w unfolding split by simp
  have lo: "w * q \<le> pos + 1" unfolding split by simp
  have hi: "pos + 1 < w * Suc q" using lt by linarith
  have "(pos + 1) div w = q" using lo hi by (rule div_nat_eqI)
  then have "row_end w (pos + 1) = max (pos + 2) (Suc q * w)"
    by (simp add: row_end_def)
  also have "\<dots> = Suc q * w" using lt by (simp add: mult.commute)
  also have "\<dots> \<le> row_end w pos" by (simp add: row_end_def q_def)
  finally show ?thesis .
qed

lemma row_end_up: "0 < pos div w \<Longrightarrow> row_end w (pos - w) \<le> row_end w pos"
proof -
  assume a: "0 < pos div w"
  have "(pos - w) div w \<le> pos div w" by (rule div_le_mono) simp
  then have "((pos - w) div w + 1) * w \<le> (pos div w + 1) * w" by simp
  moreover have "pos - w + 1 \<le> pos + 1" by simp
  ultimately show ?thesis unfolding row_end_def by (meson max.mono)
qed

lemma row_end_down:
  "int (pos div w) < int h - 1 \<Longrightarrow> row_end w (pos + w) \<le> max (row_end w pos) (w * h)"
proof (cases "w = 0")
  case True
  then show ?thesis by (simp add: row_end_def)
next
  case False
  assume a: "int (pos div w) < int h - 1"
  define q r where "q = pos div w" and "r = pos mod w"
  have split: "pos = w * q + r" by (simp add: q_def r_def)
  have r: "r < w" using False by (simp add: r_def)
  have q: "q + 2 \<le> h" using a unfolding q_def by linarith
  have d: "(pos + w) div w = q + 1" using False by (simp add: q_def)
  have "pos + w + 1 \<le> w * q + w + w" unfolding split using r by simp
  also have "\<dots> = (q + 2) * w" by (simp add: algebra_simps)
  finally have lt: "pos + w + 1 \<le> (q + 2) * w" .
  have "(q + 2) * w \<le> h * w" using q by (rule mult_le_mono1)
  then have le: "(q + 2) * w \<le> w * h" by (simp add: mult.commute)
  have "row_end w (pos + w) = max (pos + w + 1) ((q + 2) * w)"
    unfolding row_end_def d by (simp add: algebra_simps)
  also have "\<dots> = (q + 2) * w" using lt by simp
  also have "\<dots> \<le> max (row_end w pos) (w * h)" using le by simp
  finally show ?thesis .
qed

lemma row_end_gt: "pos < row_end w pos"
  by (simp add: row_end_def)


lemma flood_step_cases:
  obtains (skip) "pos \<in> visited"
      "flood_step saliency w h pos (stack, visited, region, totalScore) =
         (stack, visited, region, totalScore)"
  | (visit) stack' region' totalScore' where "pos \<notin> visited"
      "flood_step saliency w h pos (stack, visited, region, totalScore) =
         (stack', insert pos visited, region', totalScore')"
      "\<forall>q \<in> set stack'. q \<in> set stack \<or> row_end w q \<le> max (row_end w pos) (w * h)"
proof (cases "pos \<in> visited")
  case True
  then have "flood_step saliency w h pos (stack, visited, region, totalScore) =
         (stack, visited, region, totalScore)"
    by (simp add: flood_step_def)
  with True show thesis by (rule skip)
next
  case False
  show thesis
  proof (cases "saliency ! pos < 35 / 100 * (8 / 10)")
    case True
    with False have "flood_step saliency w h pos (stack, visited, region, totalScore) =
         (stack, insert pos visited, region, totalScore)"
      by (simp add: flood_step_def)
    moreover have "\<forall>q \<in> set stack. q \<in> set stack \<or> row_end w q \<le> max (row_end w pos) (w * h)"
      by simp
    ultimately show thesis using False by (intro visit)
  next
    case above: False
    define s1 where "s1 = (if pos mod w > 0 then (pos - 1) # stack else stack)"
    define s2 where "s2 = (if int (pos mod w) < int w - 1 then (pos + 1) # s1 else s1)"
    define s3 where "s3 = (if pos div w > 0 then (pos - w) # s2 else s2)"
    define s4 where "s4 = (if int (pos div w) < int h - 1 then (pos + w) # s3 else s3)"
    let ?B = "max (row_end w pos) (w * h)"
    have b1: "\<forall>q \<in> set s1. q \<in> set stack \<or> row_end w q \<le> ?B"
      unfolding s1_def using row_end_pred [of pos w] by (auto simp: le_max_iff_disj)
    have b2: "\<forall>q \<in> set s2. q \<in> set stack \<or> row_end w q \<le> ?B"
      unfolding s2_def using b1 row_end_succ [of pos w] by (auto simp: le_max_iff_disj)
    have b3: "\<forall>q \<in> set s3. q \<in> set stack \<or> row_end w q \<le> ?B"
      unfolding s3_def using b2 row_end_up [of pos w] by (auto simp: le_max_iff_disj)
    have b4: "\<forall>q \<in> set s4. q \<in> set stack \<or> row_end w q \<le> ?B"
      unfolding s4_def using b3 row_end_down [of pos w h] by auto
    have "flood_step saliency w h pos (stack, visited, region, totalScore) =
         (s4, insert pos visited, region @ [pos], totalScore + saliency ! pos)"
      using False above by (simp add: flood_step_def Let_def s1_def s2_def s3_def s4_def)
    then show thesis using False b4 by (intro visit) 
  qed
qed

lemma pos_bound_mono:
  assumes "\<forall>q \<in> set stack'. q \<in> set stack \<or> row_end w q \<le> max (row_end w pos) (w * h)"
  shows "pos_bound w h stack' \<le> pos_bound w h (pos # stack)"
proof -
  let ?A = "insert (w * h) (row_end w ` set (pos # stack))"
  have fin: "finite ?A" by simp
  have wh: "w * h \<le> Max ?A" by (rule Max_ge [OF fin]) simp
  have p: "row_end w pos \<le> Max ?A" by (rule Max_ge [OF fin]) simp
  have "a \<le> Max ?A" if "a \<in> insert (w * h) (row_end w ` set stack')" for a
  proof (cases "a = w * h")
    case True
    with wh show ?thesis by simp
  next
    case False
    with that obtain q where q: "q \<in> set stack'" "a = row_end w q" by auto
    from assms q(1) consider "q \<in> set stack" | "row_end w q \<le> max (row_end w pos) (w * h)"
      by blast
    then show ?thesis
    proof cases
      case 1
      then have "row_end w q \<in> ?A" by simp
      from Max_ge [OF fin this] q(2) show ?thesis by simp
    next
      case 2
      then have "row_end w q \<le> row_end w pos \<or> row_end w q \<le> w * h"
        by (simp add: le_max_iff_disj)
      with wh p have "row_end w q \<le> Max ?A" by linarith
      with q(2) show ?thesis by simp
    qed
  qed
  then show ?thesis unfolding pos_bound_def by (intro Max.boundedI) auto
qed

lemma pos_bound_tail: "pos_bound w h stack \<le> pos_bound w h (pos # stack)"
  by (rule pos_bound_mono) simp

lemma pos_lt_bound: "pos < pos_bound w h (pos # stack)"
proof -
  have "row_end w pos \<le> pos_bound w h (pos # stack)"
    unfolding pos_bound_def by (rule Max_ge) simp_all
  with row_end_gt [of pos w] show ?thesis by linarith
qed

termination flood_loop
proof (relation "measures [\<lambda>(saliency, w, h, stack, visited, region, totalScore).
                               card ({0..<pos_bound w h stack} - visited),
                           \<lambda>(saliency, w, h, stack, visited, region, totalScore). length stack]")
  show "wf (measures [\<lambda>(saliency :: real list, w, h, stack, visited, region :: nat list,
                          totalScore :: real). card ({0..<pos_bound w h stack} - visited),
                      \<lambda>(saliency, w, h, stack, visited, region, totalScore). length stack])"
    by simp
next
  fix saliency :: "real list" and w h pos :: nat and stack visited and region :: "nat list"
    and totalScore :: real
  let ?U = "{0..<pos_bound w h (pos # stack)} - visited"
  show "((saliency, w, h, flood_step saliency w h pos (stack, visited, region, totalScore)),
         (saliency, w, h, pos # stack, visited, region, totalScore))
          \<in> measures [\<lambda>(saliency, w, h, stack, visited, region, totalScore).
                               card ({0..<pos_bound w h stack} - visited),
                        \<lambda>(saliency, w, h, stack, visited, region, totalScore). length stack]"
  proof (cases rule: flood_step_cases [of pos visited saliency w h stack region totalScore])
    case skip
    have "{0..<pos_bound w h stack} - visited \<subseteq> ?U"
      using pos_bound_tail [of w h stack pos] by auto
    then have "card ({0..<pos_bound w h stack} - visited) \<le> card ?U"
      by (intro card_mono) simp_all
    then show ?thesis using skip(2) by auto
  next
    case (visit stack' region' totalScore')
    have "pos \<in> ?U" using visit(1) pos_lt_bound [of pos w h stack] by simp
    then have less: "card (?U - {pos}) < card ?U" by (intro card_Diff1_less) simp_all
    have "{0..<pos_bound w h stack'} - insert pos visited \<subseteq> ?U - {pos}"
      using pos_bound_mono [OF visit(3)] by auto
    then have "card ({0..<pos_bound w h stack'} - insert pos visited) \<le> card (?U - {pos})"
      by (intro card_mono) simp_all
    with less show ?thesis using visit(2) by simp
  qed
qed

lemma nth_beyond:
  "length xs = length ys \<Longrightarrow> length xs \<le> n \<Longrightarrow> xs ! n = ys ! n"
proof (induction xs ys arbitrary: n rule: list_induct2)
  case Nil
  show ?case by simp
next
  case (Cons x xs y ys)
  then obtain k where "n = Suc k" by (cases n) auto
  with Cons show ?case by simp
qed

lemma flood_step_cong:
  assumes "(s1 ! pos < 35 / 100 * (8 / 10)) = (s2 ! pos < 35 / 100 * (8 / 10))"
  shows "(case flood_step s1 w h pos (stack, visited, region, sc1) of (st, v, r, a) \<Rightarrow> (st, v, r)) =
         (case flood_step s2 w h pos (stack, visited, region, sc2) of (st, v, r, a) \<Rightarrow> (st, v, r))"
  using assms by (simp add: flood_step_def Let_def)

lemma flood_loop_cong:
  assumes "\<forall>pos. (s1 ! pos < 35 / 100 * (8 / 10)) = (s2 ! pos < 35 / 100 * (8 / 10))"
    and "(case state1 of (st, v, r, a) \<Rightarrow> (st, v, r)) = (case state2 of (st, v, r, a) \<Rightarrow> (st, v, r))"
  shows "(case flood_loop s1 w h state1 of (v, r, a) \<Rightarrow> (v, r)) =
         (case flood_loop s2 w h state2 of (v, r, a) \<Rightarrow> (v, r))"
  using assms
proof (induction s1 w h state1 arbitrary: state2 rule: flood_loop.induct)
  case (1 saliency w h visited region totalScore)
  then obtain sc2 where "state2 = ([], visited, region, sc2)"
    by (cases state2) auto
  then show ?case by simp
next
  case (2 saliency w h pos stack visited region totalScore)
  from "2.prems"(2) obtain sc2 where s2: "state2 = (pos # stack, visited, region, sc2)"
    by (cases state2) auto
  have "(case flood_step saliency w h pos (stack, visited, region, totalScore) of
           (st, v, r, a) \<Rightarrow> (st, v, r)) =
        (case flood_step s2 w h pos (stack, visited, region, sc2) of (st, v, r, a) \<Rightarrow> (st, v, r))"
    by (rule flood_step_cong) (use "2.prems"(1) in blast)
  from "2.IH" [OF "2.prems"(1) this] show ?case by (simp add: s2)
qed

lemma seed_step_cong:
  assumes "\<forall>pos. (s1 ! pos < 35 / 100 * (8 / 10)) = (s2 ! pos < 35 / 100 * (8 / 10))"
    and "\<forall>pos. (s1 ! pos < 35 / 100) = (s2 ! pos < 35 / 100)"
    and "map fst rs1 = map fst rs2"
  shows "(case seed_step s1 w h xy (visited, rs1) of (v, rs) \<Rightarrow> (v, map fst rs)) =
         (case seed_step s2 w h xy (visited, rs2) of (v, rs) \<Rightarrow> (v, map fst rs))"
proof -
  obtain x y where xy: "xy = (x, y)" by (cases xy)
  let ?idx = "y * w + x"
  show ?thesis
  proof (cases "?idx \<in> visited \<or> s1 ! ?idx < 35 / 100")
    case True
    with assms(2) have "?idx \<in> visited \<or> s2 ! ?idx < 35 / 100" by blast
    with True assms(3) show ?thesis by (simp add: seed_step_def xy Let_def)
  next
    case False
    with assms(2) have f2: "\<not> (?idx \<in> visited \<or> s2 ! ?idx < 35 / 100)" by blast
    obtain v1 r1 a1 where l1: "flood_loop s1 w h ([?idx], visited, [], 0) = (v1, r1, a1)"
      by (cases "flood_loop s1 w h ([?idx], visited, [], 0)")
    obtain v2 r2 a2 where l2: "flood_loop s2 w h ([?idx], visited, [], 0) = (v2, r2, a2)"
      by (cases "flood_loop s2 w h ([?idx], visited, [], 0)")
    have "(case flood_loop s1 w h ([?idx], visited, [], 0) of (v, r, a) \<Rightarrow> (v, r)) =
          (case flood_loop s2 w h ([?idx], visited, [], 0) of (v, r, a) \<Rightarrow> (v, r))"
      by (rule flood_loop_cong [OF assms(1)]) simp
    then have "v1 = v2" "r1 = r2" unfolding l1 l2 by simp_all
    with False f2 assms(3) show ?thesis
      unfolding seed_step_def xy Let_def prod.case l1 l2 by simp
  qed
qed

lemma fold_seed_step_cong:
  assumes "\<forall>pos. (s1 ! pos < 35 / 100 * (8 / 10)) = (s2 ! pos < 35 / 100 * (8 / 10))"
    and "\<forall>pos. (s1 ! pos < 35 / 100) = (s2 ! pos < 35 / 100)"
    and "map fst rs1 = map fst rs2"
  shows "(case fold (seed_step s1 w h) seeds (visited, rs1) of (v, rs) \<Rightarrow> (v, map fst rs)) =
         (case fold (seed_step s2 w h) seeds (visited, rs2) of (v, rs) \<Rightarrow> (v, map fst rs))"
  using assms(3)
proof (induction seeds arbitrary: visited rs1 rs2)
  case Nil
  then show ?case by simp
next
  case (Cons xy seeds)
  obtain v1 q1 where a: "seed_step s1 w h xy (visited, rs1) = (v1, q1)"
    by (cases "seed_step s1 w h xy (visited, rs1)")
  obtain v2 q2 where b: "seed_step s2 w h xy (visited, rs2) = (v2, q2)"
    by (cases "seed_step s2 w h xy (visited, rs2)")
  from seed_step_cong [OF assms(1,2) Cons.prems, of w h xy visited]
  have "v1 = v2" "map fst q1 = map fst q2" by (simp_all add: a b)
  with Cons.IH [of q1 q2 v1] show ?case by (simp add: a b)
qed

lemma find_regions_cong:
  assumes "\<forall>pos. (s1 ! pos < 35 / 100 * (8 / 10)) = (s2 ! pos < 35 / 100 * (8 / 10))"
    and "\<forall>pos. (s1 ! pos < 35 / 100) = (s2 ! pos < 35 / 100)"
  shows "map fst (find_regions s1 w h) = map fst (find_regions s2 w h)"
  using fold_seed_step_cong [OF assms, of "[]" "[]" w h "interior w h" "{}"]
  by (simp add: find_regions_def split: prod.splits)

lemma zero_strength_read:
  assumes "zero_strength m" "0 \<le> nx" "nx < int (width m)" "0 \<le> ny" "ny < int (height m)"
  shows "uint (data m ! (nat (ny * int (width m) + nx) * 4)) = 0"
proof -
  define x y where "x = nat nx" and "y = nat ny"
  have b: "x < width m" "y < height m" "nx = int x" "ny = int y"
    using assms(2-5) by (simp_all add: x_def y_def)
  have "nat (ny * int (width m) + nx) = y * width m + x"
    unfolding b by (simp add: nat_eq_iff)
  then show ?thesis using assms(1) b(1,2) by (simp add: zero_strength_def)
qed

lemma fold_max_zero:
  assumes "zero_strength m"
  shows "fold (morph_step max m radius x y) offs 0 = 0"
proof (induction offs)
  case Nil
  show ?case by simp
next
  case (Cons off offs)
  have "morph_step max m radius x y off 0 = 0"
    using zero_strength_read [OF assms]
    by (cases off) (simp add: morph_step_def Let_def not_less not_le)
  then show ?case using Cons by simp
qed

lemma fold_min_le_acc: "fold (morph_step min m radius x y) offs acc \<le> acc"
proof (induction offs arbitrary: acc)
  case Nil
  show ?case by simp
next
  case (Cons off offs)
  have "fold (morph_step min m radius x y) offs (morph_step min m radius x y off acc)
          \<le> morph_step min m radius x y off acc"
    by (rule Cons.IH)
  also have "\<dots> \<le> acc"
    by (simp add: morph_step_def Let_def split: prod.splits)
  finally show ?case by simp
qed

lemma fold_min_zero:
  assumes "zero_strength m" "x < width m" "y < height m" "(0, 0) \<in> set offs" "0 \<le> acc" "acc \<le> 255"
  shows "fold (morph_step min m radius x y) offs acc = 0"
  using assms(4,5,6)
proof (induction offs arbitrary: acc)
  case Nil
  then show ?case by simp
next
  case (Cons off offs)
  let ?a = "morph_step min m radius x y off acc"
  have range: "0 \<le> ?a \<and> ?a \<le> 255"
    using fold_min_range [OF Cons.prems(2,3), of m radius x y "[off]"] by simp
  show ?case
  proof (cases "off = (0, 0)")
    case True
    have "uint (data m ! ((y * width m + x) * 4)) = 0"
      using assms(1-3) by (simp add: zero_strength_def)
    then have "?a = 0"
      using Cons.prems(2) by (simp add: True morph_step_origin [OF assms(2,3)])
    moreover have "fold (morph_step min m radius x y) offs 0 \<le> 0" by (rule fold_min_le_acc)
    moreover have "0 \<le> fold (morph_step min m radius x y) offs 0"
      using fold_min_range [of 0 m radius x y offs] by simp
    ultimately show ?thesis by simp
  next
    case False
    with Cons.prems(1) have "(0, 0) \<in> set offs" by auto
    from Cons.IH [OF this] range show ?thesis by simp
  qed
qed

lemma dilate_zero_strength:
  assumes "zero_strength m"
  shows "zero_strength (dilate m radius)"
  unfolding zero_strength_def
proof (intro allI impI)
  fix x y assume "x < width (dilate m radius)" "y < height (dilate m radius)"
  then have b: "x < width m" "y < height m" by simp_all
  have "uint (data (dilate m radius) ! ((y * width m + x) * 4)) = 0"
    by (simp only: dilate_px [OF b] fold_max_zero [OF assms])
  then show "data (dilate m radius) ! ((y * width (dilate m radius) + x) * 4) = 0"
    by (simp only: dilate_dims) (simp add: word_uint_eq_iff)
qed

lemma erode_zero_strength:
  assumes "zero_strength m" "0 \<le> radius"
  shows "zero_strength (erode m radius)"
  unfolding zero_strength_def
proof (intro allI impI)
  fix x y assume "x < width (erode m radius)" "y < height (erode m radius)"
  then have b: "x < width m" "y < height m" by simp_all
  have "0 \<le> \<lceil>radius\<rceil>" using assms(2) by simp
  then have mem: "(0, 0) \<in> set (offsets \<lceil>radius\<rceil>)" by (simp add: offsets_iff)
  have "uint (data (erode m radius) ! ((y * width m + x) * 4)) = 0"
    by (simp only: erode_px [OF b]) (rule fold_min_zero [OF assms(1) b mem], simp_all)
  then show "data (erode m radius) ! ((y * width (erode m radius) + x) * 4) = 0"
    by (simp only: erode_dims) (simp add: word_uint_eq_iff)
qed

lemma fold_bounds_step_zero:
  assumes "zero_strength m" "\<forall>(x, y) \<in> set cs. x < width m \<and> y < height m"
  shows "fold (bounds_step m) cs st = st"
  using assms(2)
proof (induction cs)
  case Nil
  show ?case by simp
next
  case (Cons c cs)
  obtain x y where c: "c = (x, y)" by (cases c)
  with Cons.prems have "x < width m" "y < height m" by auto
  with assms(1) have "data m ! ((y * width m + x) * 4) = 0" by (simp add: zero_strength_def)
  then have "bounds_step m c st = st"
    by (cases st) (simp add: bounds_step_def c)
  with Cons show ?case by simp
qed

lemma coords_bounds: "\<forall>(x, y) \<in> set (coords w h). x < w \<and> y < h"
  by (auto simp: coords_def)

lemma computeBounds_zero_strength:
  assumes "zero_strength m" "0 < width m"
  shows "computeBounds m = \<lparr>rect_x = 0, rect_y = 0, rect_width = 0, rect_height = 0\<rparr>"
  using assms(2)
  by (simp add: computeBounds_def fold_bounds_step_zero [OF assms(1) coords_bounds])

lemma flood_100: "length (fst (snd (flood_loop (replicate 100 (1 / 2)) 10 10 ([11], {}, [], 0)))) = 100"
  by code_simp

lemma regions_100: "find_regions (replicate 100 (1 / 2)) 10 10 = []"
  by code_simp

lemma blank_zero_strength: "zero_strength (blank w h)"
proof -
  have "(y * w + x) * 4 < 4 * w * h" if "x < w" "y < h" for x y
    using px_index(1) [OF that] by simp
  then show ?thesis by (simp add: zero_strength_def blank_def)
qed

lemma morphClose_props:
  "width (morphClose m radius) = width m" "height (morphClose m radius) = height m"
  "data (morphClose m radius) = data (erode (dilate m radius) radius)"
  by (simp_all add: morphClose_def)

text \<open>
  Claim C8 on the code.  On a 10 by 10 image whose saliency is at least 0.35 everywhere
  (a uniformly red image: no edges, centre bias at least 0.5, full saturation), the
  flood fill from the first seed \<open>(1, 1)\<close> collects all 100 pixels.  The test
  \<open>region.length > 100\<close> then discards this region of exactly 100 pixels: no region is
  kept, no pixel of the returned mask is selected and the bounds are empty.
\<close>

theorem selectSubject_discards_region_of_100:
  assumes "width imageData = 10" "height imageData = 10"
    and "length saliency = 100" "\<forall>pos < 100. 35 / 100 \<le> saliency ! pos"
  shows "length (fst (snd (flood_loop saliency 10 10 ([1 * 10 + 1], {}, [], 0)))) = 100 \<and>
         find_regions saliency 10 10 = [] \<and>
         (\<forall>x < 10. \<forall>y < 10.
            data (mask (selectSubject saliency imageData)) ! ((y * 10 + x) * 4) = 0) \<and>
         bounds (selectSubject saliency imageData) =
           \<lparr>rect_x = 0, rect_y = 0, rect_width = 0, rect_height = 0\<rparr>"
proof -
  let ?s2 = "replicate 100 (1 / 2 :: real)"
  have agree: "(saliency ! pos < t) = (?s2 ! pos < t)" if "t \<le> 35 / 100" for pos t
  proof (cases "pos < 100")
    case True
    with assms(4) have "35 / 100 \<le> saliency ! pos" by simp
    with that True show ?thesis by simp
  next
    case False
    then have "saliency ! pos = ?s2 ! pos"
      by (intro nth_beyond) (simp_all add: assms(3))
    then show ?thesis by simp
  qed
  have a28: "\<forall>pos. (saliency ! pos < 35 / 100 * (8 / 10)) = (?s2 ! pos < 35 / 100 * (8 / 10))"
    by (intro allI agree) simp
  have a35: "\<forall>pos. (saliency ! pos < 35 / 100) = (?s2 ! pos < 35 / 100)"
    by (intro allI agree) simp
  have "(case flood_loop saliency 10 10 ([11], {}, [], 0) of (v, r, a) \<Rightarrow> (v, r)) =
        (case flood_loop ?s2 10 10 ([11], {}, [], 0) of (v, r, a) \<Rightarrow> (v, r))"
    by (rule flood_loop_cong [OF a28]) simp
  then have "fst (snd (flood_loop saliency 10 10 ([11], {}, [], 0))) =
             fst (snd (flood_loop ?s2 10 10 ([11], {}, [], 0)))"
    by (simp add: split_beta)
  then have len: "length (fst (snd (flood_loop saliency 10 10 ([1 * 10 + 1], {}, [], 0)))) = 100"
    using flood_100 by simp
  have "map fst (find_regions saliency 10 10) = map fst (find_regions ?s2 10 10)"
    by (rule find_regions_cong [OF a28 a35])
  then have regions: "find_regions saliency 10 10 = []"
    by (simp add: regions_100)
  let ?m = "morphClose (blank 10 10) 3"
  have sel: "selectSubject saliency imageData =
      \<lparr>mask = ?m, bounds = computeBounds ?m, active = True\<rparr>"
    by (simp add: selectSubject_def assms(1,2) regions Let_def)
  have "zero_strength (erode (dilate (blank 10 10) 3) 3)"
    by (intro erode_zero_strength dilate_zero_strength blank_zero_strength) simp
  then have z: "zero_strength ?m"
    by (simp add: zero_strength_def morphClose_props)
  have w: "width ?m = 10" "height ?m = 10"
    by (simp_all add: morphClose_props blank_def)
  have px: "\<forall>x < 10. \<forall>y < 10. data (mask (selectSubject saliency imageData)) ! ((y * 10 + x) * 4) = 0"
    using z unfolding zero_strength_def w sel by simp
  have b: "bounds (selectSubject saliency imageData) =
           \<lparr>rect_x = 0, rect_y = 0, rect_width = 0, rect_height = 0\<rparr>"
    unfolding sel using computeBounds_zero_strength [OF z] w by simp
  from len regions px b show ?thesis by blast
qed


theorem selectSubject_discards_region_of_100_witness:
  "width \<lparr>width = 10, height = 10, data = concat (replicate 100 [255, 0, 0, 255 :: byte])\<rparr> = 10 \<and>
   height \<lparr>width = 10, height = 10, data = concat (replicate 100 [255, 0, 0, 255 :: byte])\<rparr> = 10 \<and>
   length (replicate 100 (1 / 2 :: real)) = 100 \<and>
   length (fst (snd (flood_loop (replicate 100 (1 / 2)) 10 10 ([1 * 10 + 1], {}, [], 0)))) = 100 \<and>
   find_regions (replicate 100 (1 / 2)) 10 10 = [] \<and>
   bounds (selectSubject (replicate 100 (1 / 2))
     \<lparr>width = 10, height = 10, data = concat (replicate 100 [255, 0, 0, 255])\<rparr>) =
     \<lparr>rect_x = 0, rect_y = 0, rect_width = 0, rect_height = 0\<rparr>"
proof -
  let ?i = "\<lparr>width = 10, height = 10, data = concat (replicate 100 [255, 0, 0, 255 :: byte])\<rparr>"
  let ?s = "replicate 100 (1 / 2 :: real)"
  have h: "width ?i = 10" "height ?i = 10" "length ?s = 100" "\<forall>pos < 100. 35 / 100 \<le> ?s ! pos"
    by simp_all
  from selectSubject_discards_region_of_100 [OF h] h(1-3) show ?thesis by blast
qed

subsection \<open>The channels of a mask\<close>

































end
